theory Spec2Isabelle
  imports Main
begin

section \<open>Values, promises and the host's task list\<close>

text \<open>
  The model follows \<^verbatim>\<open>src/www/Promise.js\<close>. A Promise object is an index into a heap of
  records holding the three variables its constructor closes over (\<^verbatim>\<open>fate\<close>, \<^verbatim>\<open>queue\<close>,
  \<^verbatim>\<open>status\<close>). Function values are the closures the file itself creates (the two settlement
  functions of a promise, the two handlers of \<^verbatim>\<open>Promise.all\<close>) and user functions, which are
  numbered. Objects carrying a \<^verbatim>\<open>then\<close> method of their own are outside the value universe:
  the only thenables are Promise instances. \<^verbatim>\<open>Promise.race\<close> (lines 258-275) and the
  installation of \<^verbatim>\<open>setImmediate\<close> and of the global (lines 330-369) take no part in the
  properties below and are left out.
\<close>

datatype fn =
    Resolver nat
  | Rejector nat
  | User nat
  | AllFulfil nat nat
  | AllReject nat

datatype val =
    VUndefined
  | VNull
  | VBool bool
  | VNum int
  | VStr string
  | VArr "val list"
  | VPromise nat
  | VFun fn
  | VTypeError string
  | VRangeError string

datatype status = PENDING | RESOLVED | REJECTED

text \<open>The operation names \<^verbatim>\<open>"resolve"\<close> and \<^verbatim>\<open>"reject"\<close>, used as property keys.\<close>

datatype operation = OpResolve | OpReject

record link =
  link_resolve :: val
  link_reject :: val
  link_promise :: val

record args =
  resolve :: val
  reject :: val
  link :: link

record promise =
  status :: status
  fate :: val
  queue :: "args list"

text \<open>The local variables of one call of the function given to the constructor by
  \<^verbatim>\<open>Promise.all\<close>; \<open>all_promise\<close> is the promise whose settlement functions that call
  received as \<^verbatim>\<open>onResolved\<close> and \<^verbatim>\<open>onRejected\<close>.\<close>

record all_vars =
  results :: "val list"
  remaining :: int
  all_status :: bool
  all_promise :: nat

text \<open>The functions the file passes to the constructor, and a user's: a user function is a
  script of calls to the two settlement functions it receives, followed by an optional throw.\<close>

datatype producer =
    ThenFunc nat val val
  | CatchFunc nat val
  | ResolveFunc val
  | RejectFunc val
  | AllFunc "val list"
  | UserFunc "(operation \<times> val) list" "val option"

datatype func_arg = NotAFunction val | Function producer

text \<open>What \<^verbatim>\<open>window.setImmediate\<close> was given: the constructor's closure (lines 165-171),
  the closure of \<^verbatim>\<open>envoy\<close> (lines 64-70), or a function with one argument (line 72).\<close>

datatype task =
    RunProducer nat producer
  | InvokeHandler nat args operation
  | CallWith val val

text \<open>
  The host keeps the tasks it was given and has not run yet (\<open>immediates\<close>, the oldest first);
  \<open>submitted\<close> is its record of every task it was ever given, in the order of the calls of
  \<^verbatim>\<open>window.setImmediate\<close>.
\<close>

record state =
  heap :: "nat \<Rightarrow> promise"
  allocated :: nat
  immediates :: "task list"
  submitted :: "task list"
  closures :: "nat \<Rightarrow> all_vars"
  nclosures :: nat

text \<open>How a call ends: it returns a value or throws one, in the state it reached.\<close>

datatype 'a completion = Returns 'a state | Throws val state

text \<open>
  A handler given to \<^verbatim>\<open>then\<close> or \<^verbatim>\<open>catch\<close> is called as a method of the reaction
  (\<^verbatim>\<open>args[operation](fate)\<close>, line 66), so it can reach the settlement functions of the
  downstream promise as \<^verbatim>\<open>this.link.resolve\<close> and \<^verbatim>\<open>this.link.reject\<close>. The table of user
  functions gives, for function \<open>k\<close> and an argument, the calls the function makes to these two
  (the operation and the value of each, in order) and how it ends then: it returns (\<open>Inr\<close>) or
  throws (\<open>Inl\<close>).
\<close>

type_synonym user = "nat \<Rightarrow> val \<Rightarrow> (operation \<times> val) list \<times> (val + val)"

definition is_function :: "val \<Rightarrow> bool" where
  "is_function v = (case v of VFun _ \<Rightarrow> True | _ \<Rightarrow> False)"

definition instanceof_Promise :: "val \<Rightarrow> bool" where
  "instanceof_Promise v = (case v of VPromise _ \<Rightarrow> True | _ \<Rightarrow> False)"

definition instanceof_Object :: "val \<Rightarrow> bool" where
  "instanceof_Object v =
     (case v of VArr _ \<Rightarrow> True | VPromise _ \<Rightarrow> True | VFun _ \<Rightarrow> True
      | VTypeError _ \<Rightarrow> True | VRangeError _ \<Rightarrow> True | _ \<Rightarrow> False)"

definition truthy :: "val \<Rightarrow> bool" where
  "truthy v = (case v of VUndefined \<Rightarrow> False | VNull \<Rightarrow> False | VBool b \<Rightarrow> b
     | VNum n \<Rightarrow> n \<noteq> 0 | VStr x \<Rightarrow> x \<noteq> [] | _ \<Rightarrow> True)"

text \<open>\<^verbatim>\<open>typeof value.then === "function"\<close>, for a value on which the property can be read.\<close>

definition has_then :: "val \<Rightarrow> bool" where
  "has_then v = instanceof_Promise v"

definition handler_of :: "args \<Rightarrow> operation \<Rightarrow> val" where
  "handler_of a opr = (case opr of OpResolve \<Rightarrow> resolve a | OpReject \<Rightarrow> reject a)"

definition link_of :: "args \<Rightarrow> operation \<Rightarrow> val" where
  "link_of a opr = (case opr of OpResolve \<Rightarrow> link_resolve (link a) | OpReject \<Rightarrow> link_reject (link a))"

definition setImmediate :: "task \<Rightarrow> state \<Rightarrow> state" where
  "setImmediate t s = s\<lparr>immediates := immediates s @ [t], submitted := submitted s @ [t]\<rparr>"

definition new_promise :: promise where
  "new_promise = \<lparr>status = PENDING, fate = VUndefined, queue = []\<rparr>"

definition init :: state where
  "init = \<lparr>heap = (\<lambda>_. new_promise), allocated = 0, immediates = [], submitted = [],
           closures = (\<lambda>_. \<lparr>results = [], remaining = 0, all_status = True, all_promise = 0\<rparr>),
           nclosures = 0\<rparr>"

text \<open>The exception of the engine when a call finds no room on the stack.\<close>

definition stack_overflow :: val where
  "stack_overflow = VRangeError ''Maximum call stack size exceeded''"

section \<open>The constructor's private functions\<close>

text \<open>The two branches of \<^verbatim>\<open>envoy\<close> that hand a reaction to the host (lines 63-73).\<close>

definition dispatch :: "nat \<Rightarrow> args \<Rightarrow> operation \<Rightarrow> state \<Rightarrow> state" where
  "dispatch p a opr s =
     (if is_function (handler_of a opr) then setImmediate (InvokeHandler p a opr) s
      else setImmediate (CallWith (link_of a opr) (fate (heap s p))) s)"

datatype chain_arg = NotObject val | Object args

text \<open>The checks of \<^verbatim>\<open>chain\<close> (lines 135-152), in the source's order. An argument that is
  not a reaction fails the first check when it is no object at all, and the second one when
  it is an object of the value universe, none of which has a \<^verbatim>\<open>resolve\<close> property.\<close>

definition check_args :: "chain_arg \<Rightarrow> val + args" where
  "check_args x =
     (case x of
        NotObject v \<Rightarrow>
          if \<not> instanceof_Object v then Inl (VTypeError ''The given argument is null'')
          else Inl (VTypeError ''The given resolve argument is invalid, null or function'')
      | Object a \<Rightarrow>
          if \<not> (resolve a = VNull \<or> is_function (resolve a)) then
            Inl (VTypeError ''The given resolve argument is invalid, null or function'')
          else if \<not> (reject a = VNull \<or> is_function (reject a)) then
            Inl (VTypeError ''The given reject argument is invalid, null or function'')
          else if \<not> is_function (link_resolve (link a)) then
            Inl (VTypeError ''The given resolve link argument is invalid, null or function'')
          else if \<not> is_function (link_reject (link a)) then
            Inl (VTypeError ''The given reject link argument is invalid, null or function'')
          else if \<not> instanceof_Promise (link_promise (link a)) then
            Inl (VTypeError ''The given promise link argument, must be an instance of Promise'')
          else Inr a)"

definition push :: "nat \<Rightarrow> args \<Rightarrow> state \<Rightarrow> state" where
  "push p a s = s\<lparr>heap := (heap s)(p := (heap s p)\<lparr>queue := queue (heap s p) @ [a]\<rparr>)\<rparr>"

text \<open>
  \<^verbatim>\<open>chain\<close> (lines 134-164) and \<^verbatim>\<open>envoy\<close> (lines 60-74) call each other: \<^verbatim>\<open>chain\<close> of a settled
  promise calls its \<^verbatim>\<open>envoy\<close>, and \<^verbatim>\<open>envoy\<close> of a promise whose fate is a Promise calls that
  promise's \<^verbatim>\<open>chain\<close> (line 62). The recursion is as deep as the path of Promise-valued fates
  is long, and it has no end when the path is a cycle (a promise resolved with itself). The
  engine's stack is finite: the first argument is the number of nested calls of line 62 it
  still has room for, and the call that finds no room throws a RangeError, which passes
  through \<^verbatim>\<open>envoy\<close> and \<^verbatim>\<open>chain\<close> as any exception does. An argument of \<^verbatim>\<open>envoy\<close> that is not an
  object makes it throw when it reads \<^verbatim>\<open>args[operation]\<close>.
\<close>

function chain :: "nat \<Rightarrow> nat \<Rightarrow> chain_arg \<Rightarrow> state \<Rightarrow> unit completion"
  and envoy :: "nat \<Rightarrow> nat \<Rightarrow> chain_arg \<Rightarrow> operation \<Rightarrow> state \<Rightarrow> unit completion" where
  "chain n p x s =
     (case check_args x of
        Inl e \<Rightarrow> Throws e s
      | Inr a \<Rightarrow>
          (case status (heap s p) of
             PENDING \<Rightarrow> Returns () (push p a s)
           | RESOLVED \<Rightarrow> envoy n p (Object a) OpResolve s
           | REJECTED \<Rightarrow> envoy n p (Object a) OpReject s))"
| "envoy n p x opr s =
     (case fate (heap s p) of
        VPromise q \<Rightarrow>
          (case n of
             0 \<Rightarrow> Throws stack_overflow s
           | Suc m \<Rightarrow> chain m q x s)
      | _ \<Rightarrow>
          (case x of
             NotObject _ \<Rightarrow> Throws (VTypeError ''Cannot read properties of undefined'') s
           | Object a \<Rightarrow> Returns () (dispatch p a opr s)))"
  by pat_completeness auto
termination
  by (relation "measure (\<lambda>c. case c of Inl (n, _) \<Rightarrow> 2 * n + 1 | Inr (n, _) \<Rightarrow> 2 * n)") auto

text \<open>\<^verbatim>\<open>queue[i]\<close>: \<^verbatim>\<open>undefined\<close> past the end of the array.\<close>

definition queue_at :: "args list \<Rightarrow> nat \<Rightarrow> chain_arg" where
  "queue_at xs i = (if i < length xs then Object (xs ! i) else NotObject VUndefined)"

text \<open>\<^verbatim>\<open>enlighten\<close> (lines 84-89): the loop reads \<^verbatim>\<open>queue[i]\<close> afresh in each round, up to the
  length it read once at the start. An exception of \<^verbatim>\<open>envoy\<close> ends the loop.\<close>

function enlighten_loop :: "nat \<Rightarrow> nat \<Rightarrow> operation \<Rightarrow> nat \<Rightarrow> nat \<Rightarrow> state \<Rightarrow> unit completion" where
  "enlighten_loop n p opr i maxI s =
     (if i < maxI then
        (case envoy n p (queue_at (queue (heap s p)) i) opr s of
           Throws e s' \<Rightarrow> Throws e s'
         | Returns _ s' \<Rightarrow> enlighten_loop n p opr (i + 1) maxI s')
      else Returns () s)"
  by pat_completeness auto
termination
  by (relation "measure (\<lambda>(n, p, opr, i, maxI, s). maxI - i)") auto

definition enlighten :: "nat \<Rightarrow> nat \<Rightarrow> operation \<Rightarrow> state \<Rightarrow> unit completion" where
  "enlighten n p opr s = enlighten_loop n p opr 0 (length (queue (heap s p))) s"

definition settle :: "nat \<Rightarrow> status \<Rightarrow> val \<Rightarrow> state \<Rightarrow> state" where
  "settle p st v s = s\<lparr>heap := (heap s)(p := (heap s p)\<lparr>status := st, fate := v\<rparr>)\<rparr>"

definition resolver :: "nat \<Rightarrow> nat \<Rightarrow> val \<Rightarrow> state \<Rightarrow> unit completion" where
  "resolver n p v s =
     (if status (heap s p) = PENDING then enlighten n p OpResolve (settle p RESOLVED v s)
      else Returns () s)"

definition rejector :: "nat \<Rightarrow> nat \<Rightarrow> val \<Rightarrow> state \<Rightarrow> unit completion" where
  "rejector n p v s =
     (if status (heap s p) = PENDING then enlighten n p OpReject (settle p REJECTED v s)
      else Returns () s)"

section \<open>Calling function values\<close>

text \<open>\<^verbatim>\<open>results[index] = value\<close>: an assignment past the end extends the array, and the
  positions in between read as \<^verbatim>\<open>undefined\<close>.\<close>

definition set_index :: "val list \<Rightarrow> nat \<Rightarrow> val \<Rightarrow> val list" where
  "set_index xs i v =
     (if i < length xs then xs[i := v]
      else xs @ replicate (i - length xs) VUndefined @ [v])"

text \<open>A call that returns \<open>r\<close> where the call inside it returns.\<close>

definition returning :: "'b \<Rightarrow> 'a completion \<Rightarrow> 'b completion" where
  "returning r c = (case c of Throws e s \<Rightarrow> Throws e s | Returns _ s \<Rightarrow> Returns r s)"

text \<open>The fulfilment handler of \<^verbatim>\<open>Promise.all\<close> (lines 233-240) and its rejection handler
  (lines 241-244).\<close>

definition all_fulfil :: "nat \<Rightarrow> nat \<Rightarrow> nat \<Rightarrow> val \<Rightarrow> state \<Rightarrow> val completion" where
  "all_fulfil n c index v s =
     (if all_status (closures s c) then
        (let s1 = s\<lparr>closures := (closures s)(c := (closures s c)
                    \<lparr>results := set_index (results (closures s c)) index v,
                     remaining := remaining (closures s c) - 1\<rparr>)\<rparr>
         in if remaining (closures s1 c) = 0
            then returning VUndefined
                   (resolver n (all_promise (closures s1 c)) (VArr (results (closures s1 c))) s1)
            else Returns VUndefined s1)
      else Returns VUndefined s)"

definition all_reject :: "nat \<Rightarrow> nat \<Rightarrow> val \<Rightarrow> state \<Rightarrow> val completion" where
  "all_reject n c reason s =
     (let s1 = s\<lparr>closures := (closures s)(c := (closures s c)\<lparr>all_status := False\<rparr>)\<rparr>
      in returning VUndefined (rejector n (all_promise (closures s1 c)) reason s1))"

text \<open>How a user function ends once its calls are made.\<close>

definition finish :: "val + val \<Rightarrow> state \<Rightarrow> val completion" where
  "finish r s = (case r of Inl e \<Rightarrow> Throws e s | Inr x \<Rightarrow> Returns x s)"

text \<open>
  A call of a function value whose receiver is not a reaction: the host's call of line 72,
  a call of \<^verbatim>\<open>this.link.resolve\<close> (the receiver is the link), a call from the program. The
  closures of the file do not read \<^verbatim>\<open>this\<close>. A user function that goes on to call
  \<^verbatim>\<open>this.link.resolve\<close> or \<^verbatim>\<open>this.link.reject\<close> reads \<^verbatim>\<open>this.link\<close>, which such a receiver does
  not have, and throws at the first of these calls.
\<close>

fun call_fn :: "user \<Rightarrow> nat \<Rightarrow> fn \<Rightarrow> val \<Rightarrow> state \<Rightarrow> val completion" where
  "call_fn U n (Resolver p) v s = returning VUndefined (resolver n p v s)"
| "call_fn U n (Rejector p) v s = returning VUndefined (rejector n p v s)"
| "call_fn U n (User k) v s =
     (case fst (U k v) of
        [] \<Rightarrow> finish (snd (U k v)) s
      | _ # _ \<Rightarrow> Throws (VTypeError ''Cannot read properties of undefined'') s)"
| "call_fn U n (AllFulfil c index) v s = all_fulfil n c index v s"
| "call_fn U n (AllReject c) v s = all_reject n c v s"

text \<open>Calling a value that is not a function throws.\<close>

definition call_val :: "user \<Rightarrow> nat \<Rightarrow> val \<Rightarrow> val \<Rightarrow> state \<Rightarrow> val completion" where
  "call_val U n g v s =
     (case g of VFun f \<Rightarrow> call_fn U n f v s
      | _ \<Rightarrow> Throws (VTypeError ''not a function'') s)"

text \<open>The calls \<^verbatim>\<open>this.link.resolve(v)\<close> and \<^verbatim>\<open>this.link.reject(v)\<close> a user function makes
  when the reaction \<open>a\<close> is its receiver; an exception of one of them ends the function.\<close>

fun this_link_calls :: "user \<Rightarrow> nat \<Rightarrow> args \<Rightarrow> (operation \<times> val) list \<Rightarrow> state \<Rightarrow> unit completion" where
  "this_link_calls U n a [] s = Returns () s"
| "this_link_calls U n a (c # cs) s =
     (case call_val U n (link_of a (fst c)) (snd c) s of
        Throws e s' \<Rightarrow> Throws e s'
      | Returns _ s' \<Rightarrow> this_link_calls U n a cs s')"

text \<open>The method call \<^verbatim>\<open>args[operation](fate)\<close> of line 66.\<close>

definition call_method :: "user \<Rightarrow> nat \<Rightarrow> args \<Rightarrow> operation \<Rightarrow> val \<Rightarrow> state \<Rightarrow> val completion" where
  "call_method U n a opr v s =
     (case handler_of a opr of
        VFun (User k) \<Rightarrow>
          (case this_link_calls U n a (fst (U k v)) s of
             Throws e s' \<Rightarrow> Throws e s'
           | Returns _ s' \<Rightarrow> finish (snd (U k v)) s')
      | g \<Rightarrow> call_val U n g v s)"

section \<open>The constructor and the public functions\<close>

text \<open>\<^verbatim>\<open>Promise\<close> (lines 36-172): the check of its argument, the three variables, and the
  closure given to \<^verbatim>\<open>window.setImmediate\<close>, which will call \<^verbatim>\<open>func\<close>.\<close>

definition Promise :: "func_arg \<Rightarrow> state \<Rightarrow> nat completion" where
  "Promise func s =
     (case func of
        NotAFunction _ \<Rightarrow> Throws (VTypeError ''Promise constructor takes a function argument'') s
      | Function f \<Rightarrow>
          (let p = allocated s
           in Returns p (setImmediate (RunProducer p f)
                (s\<lparr>heap := (heap s)(p := new_promise), allocated := p + 1\<rparr>))))"

definition Promise_then :: "nat \<Rightarrow> val \<Rightarrow> val \<Rightarrow> state \<Rightarrow> nat completion" where
  "Promise_then that onResolved onRejected s = Promise (Function (ThenFunc that onResolved onRejected)) s"

definition Promise_catch :: "nat \<Rightarrow> val \<Rightarrow> state \<Rightarrow> nat completion" where
  "Promise_catch that onRejected s = Promise (Function (CatchFunc that onRejected)) s"

definition Promise_resolve :: "val \<Rightarrow> state \<Rightarrow> nat completion" where
  "Promise_resolve v s = Promise (Function (ResolveFunc v)) s"

definition Promise_reject :: "val \<Rightarrow> state \<Rightarrow> nat completion" where
  "Promise_reject reason s = Promise (Function (RejectFunc reason)) s"

definition Promise_all :: "val list \<Rightarrow> state \<Rightarrow> nat completion" where
  "Promise_all iterable s = Promise (Function (AllFunc iterable)) s"

text \<open>The method call \<^verbatim>\<open>x.then(a, b)\<close> on a value: only a Promise instance has the method.\<close>

definition call_then :: "val \<Rightarrow> val \<Rightarrow> val \<Rightarrow> state \<Rightarrow> nat completion" where
  "call_then x a b s =
     (case x of
        VPromise q \<Rightarrow> Promise_then q a b s
      | VUndefined \<Rightarrow> Throws (VTypeError ''Cannot read properties of undefined'') s
      | VNull \<Rightarrow> Throws (VTypeError ''Cannot read properties of null'') s
      | _ \<Rightarrow> Throws (VTypeError ''then is not a function'') s)"

definition discard :: "'a completion \<Rightarrow> unit completion" where
  "discard c = (case c of Returns _ s \<Rightarrow> Returns () s | Throws e s \<Rightarrow> Throws e s)"

text \<open>The function \<^verbatim>\<open>Promise.all\<close> gives to \<^verbatim>\<open>forEach\<close> (lines 226-245).\<close>

definition all_each :: "nat \<Rightarrow> val \<Rightarrow> nat \<Rightarrow> state \<Rightarrow> unit completion" where
  "all_each c v index s =
     (case (if truthy v \<and> \<not> has_then v then Returns v s
            else (case Promise_resolve v s of
                    Returns w s' \<Rightarrow> Returns (VPromise w) s'
                  | Throws e s' \<Rightarrow> Throws e s')) of
        Throws e s' \<Rightarrow> Throws e s'
      | Returns promise s' \<Rightarrow>
          discard (call_then promise (VFun (AllFulfil c index)) (VFun (AllReject c)) s'))"

fun forEach :: "(val \<Rightarrow> nat \<Rightarrow> state \<Rightarrow> unit completion) \<Rightarrow> val list \<Rightarrow> nat \<Rightarrow> state \<Rightarrow> unit completion" where
  "forEach f [] index s = Returns () s"
| "forEach f (v # vs) index s =
     (case f v index s of
        Throws e s' \<Rightarrow> Throws e s'
      | Returns _ s' \<Rightarrow> forEach f vs (index + 1) s')"

definition call_settlement :: "nat \<Rightarrow> nat \<Rightarrow> operation \<times> val \<Rightarrow> state \<Rightarrow> unit completion" where
  "call_settlement n p c s =
     (case fst c of OpResolve \<Rightarrow> resolver n p (snd c) s | OpReject \<Rightarrow> rejector n p (snd c) s)"

fun user_calls :: "nat \<Rightarrow> nat \<Rightarrow> (operation \<times> val) list \<Rightarrow> state \<Rightarrow> unit completion" where
  "user_calls n p [] s = Returns () s"
| "user_calls n p (c # cs) s =
     (case call_settlement n p c s of
        Throws e s' \<Rightarrow> Throws e s'
      | Returns _ s' \<Rightarrow> user_calls n p cs s')"

definition then_args :: "nat \<Rightarrow> val \<Rightarrow> val \<Rightarrow> args" where
  "then_args p onResolved onRejected =
     \<lparr>resolve = (if is_function onResolved then onResolved else VNull),
      reject = (if is_function onRejected then onRejected else VNull),
      link = \<lparr>link_resolve = VFun (Resolver p), link_reject = VFun (Rejector p),
               link_promise = VPromise p\<rparr>\<rparr>"

definition catch_args :: "nat \<Rightarrow> val \<Rightarrow> args" where
  "catch_args p onRejected =
     \<lparr>resolve = VNull,
      reject = (if is_function onRejected then onRejected else VNull),
      link = \<lparr>link_resolve = VFun (Resolver p), link_reject = VFun (Rejector p),
               link_promise = VPromise p\<rparr>\<rparr>"

text \<open>
  \<open>call_producer n f p\<close> is the call \<^verbatim>\<open>func(resolver, rejector)\<close> of line 167 in the promise
  \<open>p\<close>, for each function the file gives to the constructor: of \<^verbatim>\<open>then\<close> (lines 289-299, where
  the variable \<^verbatim>\<open>promise\<close> holds \<open>p\<close> by the time the host runs the closure), of \<^verbatim>\<open>catch\<close>
  (lines 314-324), of \<^verbatim>\<open>Promise.resolve\<close> (lines 185-191), of \<^verbatim>\<open>Promise.reject\<close>
  (lines 203-205) and of \<^verbatim>\<open>Promise.all\<close> (lines 221-246).
\<close>

definition call_producer :: "nat \<Rightarrow> producer \<Rightarrow> nat \<Rightarrow> state \<Rightarrow> unit completion" where
  "call_producer n f p s =
     (case f of
        ThenFunc that onResolved onRejected \<Rightarrow>
          chain n that (Object (then_args p onResolved onRejected)) s
      | CatchFunc that onRejected \<Rightarrow>
          chain n that (Object (catch_args p onRejected)) s
      | ResolveFunc v \<Rightarrow>
          if truthy v \<and> has_then v
          then discard (call_then v (VFun (Resolver p)) (VFun (Rejector p)) s)
          else resolver n p v s
      | RejectFunc reason \<Rightarrow> rejector n p reason s
      | AllFunc iterable \<Rightarrow>
          (let c = nclosures s;
               s1 = s\<lparr>closures := (closures s)(c :=
                       \<lparr>results = [], remaining = int (length iterable),
                        all_status = True, all_promise = p\<rparr>),
                      nclosures := c + 1\<rparr>
           in forEach (all_each c) iterable 0 s1)
      | UserFunc calls ex \<Rightarrow>
          (case user_calls n p calls s of
             Returns _ s' \<Rightarrow> (case ex of None \<Rightarrow> Returns () s' | Some e \<Rightarrow> Throws e s')
           | Throws e s' \<Rightarrow> Throws e s'))"

section \<open>The host: running what was given to setImmediate\<close>

text \<open>
  \<open>run_task\<close> is the body of each closure given to \<^verbatim>\<open>window.setImmediate\<close>: lines 166-170
  for the constructor's, lines 65-69 for the one of \<^verbatim>\<open>envoy\<close> (which reads \<^verbatim>\<open>fate\<close> when it
  runs), and the plain call of line 72. The host starts each task on an empty stack, with
  room for \<open>n\<close> nested calls. An exception that leaves a task is the host's.
\<close>

definition run_task :: "user \<Rightarrow> nat \<Rightarrow> task \<Rightarrow> state \<Rightarrow> unit completion" where
  "run_task U n t s =
     (case t of
        RunProducer p f \<Rightarrow>
          (case call_producer n f p s of
             Throws ex s' \<Rightarrow> rejector n p ex s'
           | Returns _ s' \<Rightarrow> Returns () s')
      | InvokeHandler p a opr \<Rightarrow>
          (case call_method U n a opr (fate (heap s p)) s of
             Throws ex s1 \<Rightarrow> returning () (call_val U n (link_reject (link a)) ex s1)
           | Returns r s1 \<Rightarrow>
               (case call_val U n (link_resolve (link a)) r s1 of
                  Throws ex s2 \<Rightarrow> returning () (call_val U n (link_reject (link a)) ex s2)
                | Returns _ s2 \<Rightarrow> Returns () s2))
      | CallWith g v \<Rightarrow> returning () (call_val U n g v s))"

definition state_of :: "'a completion \<Rightarrow> state" where
  "state_of c = (case c of Returns _ s \<Rightarrow> s | Throws _ s \<Rightarrow> s)"

text \<open>
  What happens from outside: the host runs one of the pending immediates (\<open>RunImmediate 0\<close>
  is the oldest, which is the one a host that keeps the order of submission runs), or the
  program calls a public function, or a function value it holds. The promise a call returns
  is the one allocated last.
\<close>

datatype event =
    RunImmediate nat
  | New func_arg
  | Then nat val val
  | Catch nat val
  | Resolve val
  | Reject val
  | All "val list"
  | Call fn val

definition run_event :: "user \<Rightarrow> nat \<Rightarrow> event \<Rightarrow> state \<Rightarrow> state" where
  "run_event U n e s =
     (case e of
        RunImmediate k \<Rightarrow>
          (if k < length (immediates s)
           then state_of
                  (run_task U n (immediates s ! k)
                     (s\<lparr>immediates := take k (immediates s) @ drop (k + 1) (immediates s)\<rparr>))
           else s)
      | New func \<Rightarrow> state_of (Promise func s)
      | Then p a b \<Rightarrow> state_of (Promise_then p a b s)
      | Catch p b \<Rightarrow> state_of (Promise_catch p b s)
      | Resolve v \<Rightarrow> state_of (Promise_resolve v s)
      | Reject v \<Rightarrow> state_of (Promise_reject v s)
      | All vs \<Rightarrow> state_of (Promise_all vs s)
      | Call f v \<Rightarrow> state_of (call_fn U n f v s))"

fun run :: "user \<Rightarrow> nat \<Rightarrow> event list \<Rightarrow> state \<Rightarrow> state" where
  "run U n [] s = s"
| "run U n (e # es) s = run U n es (run_event U n e s)"
section \<open>Notions used to state the properties\<close>

text \<open>The task \<^verbatim>\<open>envoy\<close> gives to the host for a reaction: the closure that invokes the
  handler when there is one for the operation, else the downstream's settlement function
  with the fate as its argument.\<close>

definition task_for :: "nat \<Rightarrow> args \<Rightarrow> operation \<Rightarrow> val \<Rightarrow> task" where
  "task_for t a opr v =
     (if is_function (handler_of a opr) then InvokeHandler t a opr
      else CallWith (link_of a opr) v)"

text \<open>The operation under which a settled promise dispatches.\<close>

definition op_of :: "status \<Rightarrow> operation" where
  "op_of st = (case st of REJECTED \<Rightarrow> OpReject | _ \<Rightarrow> OpResolve)"

text \<open>The status a settlement function writes.\<close>

definition status_of :: "operation \<Rightarrow> status" where
  "status_of opr = (case opr of OpResolve \<Rightarrow> RESOLVED | OpReject \<Rightarrow> REJECTED)"

text \<open>The settlement function of \<open>p\<close> for an operation.\<close>

definition settlement_fn :: "operation \<Rightarrow> nat \<Rightarrow> fn" where
  "settlement_fn opr p = (case opr of OpResolve \<Rightarrow> Resolver p | OpReject \<Rightarrow> Rejector p)"

text \<open>
  \<open>path_end n s p\<close>: where a reaction given to \<^verbatim>\<open>chain\<close> of \<open>p\<close>, or to \<^verbatim>\<open>envoy\<close> of a settled
  \<open>p\<close>, ends: at the first promise on the path of Promise-valued fates from \<open>p\<close> that is pending
  or settled with a fate that is not a Promise. It is \<open>None\<close> when the path is longer than
  the \<open>n\<close> nested calls the stack has room for, as it is for every \<open>n\<close> when the path runs
  into a cycle.
\<close>

fun path_end :: "nat \<Rightarrow> state \<Rightarrow> nat \<Rightarrow> nat option" where
  "path_end n s p =
     (if status (heap s p) = PENDING then Some p
      else (case fate (heap s p) of
              VPromise q \<Rightarrow> (case n of 0 \<Rightarrow> None | Suc m \<Rightarrow> path_end m s q)
            | _ \<Rightarrow> Some p))"

text \<open>What happens to the reactions \<open>as\<close> that end at \<open>t\<close>: appended to the queue of \<open>t\<close>
  while it is pending, else given to the host, one task each, in their order.\<close>

definition deliver_all :: "nat \<Rightarrow> args list \<Rightarrow> state \<Rightarrow> state" where
  "deliver_all t as s =
     (if status (heap s t) = PENDING
      then s\<lparr>heap := (heap s)(t := (heap s t)\<lparr>queue := queue (heap s t) @ as\<rparr>)\<rparr>
      else s\<lparr>immediates := immediates s @
                map (\<lambda>a. task_for t a (op_of (status (heap s t))) (fate (heap s t))) as,
             submitted := submitted s @
                map (\<lambda>a. task_for t a (op_of (status (heap s t))) (fate (heap s t))) as\<rparr>)"

text \<open>The queue of \<open>p\<close> holds only objects that pass the checks of \<^verbatim>\<open>chain\<close>, which is where
  every element of a queue comes from (line 155).\<close>

definition checked_queue :: "state \<Rightarrow> nat \<Rightarrow> bool" where
  "checked_queue s p = list_all (\<lambda>a. check_args (Object a) = Inr a) (queue (heap s p))"

text \<open>
  \<open>only_attaches s s'\<close>: from \<open>s\<close> to \<open>s'\<close> no promise changed its status or fate, no
  settled promise changed its queue, every queue only grew at the end, the host was only
  given tasks (it ran none), and the variables of \<^verbatim>\<open>Promise.all\<close> are the same. It is what
  \<^verbatim>\<open>chain\<close>, \<^verbatim>\<open>envoy\<close> and \<^verbatim>\<open>enlighten\<close> may do to a state: no handler is called and nothing
  is settled.
\<close>

definition only_attaches :: "state \<Rightarrow> state \<Rightarrow> bool" where
  "only_attaches s s' \<longleftrightarrow>
     (\<forall>q. status (heap s' q) = status (heap s q) \<and> fate (heap s' q) = fate (heap s q) \<and>
          (\<exists>as. queue (heap s' q) = queue (heap s q) @ as) \<and>
          (status (heap s q) \<noteq> PENDING \<longrightarrow> queue (heap s' q) = queue (heap s q))) \<and>
     (\<exists>ts. immediates s' = immediates s @ ts \<and> submitted s' = submitted s @ ts) \<and>
     closures s' = closures s \<and> nclosures s' = nclosures s \<and> allocated s' = allocated s"

text \<open>
  \<open>keeps_settled s s'\<close>: every promise of \<open>s\<close> that is settled in \<open>s\<close> has in \<open>s'\<close> the
  status, fate and queue it has in \<open>s\<close>. \<open>all_checked s\<close>: every queue of \<open>s\<close> holds only
  objects that pass the checks of \<^verbatim>\<open>chain\<close>. \<open>evolves s s'\<close>: both are kept from \<open>s\<close> to
  \<open>s'\<close>, which is what every function of the file and every event does.
\<close>

definition keeps_settled :: "state \<Rightarrow> state \<Rightarrow> bool" where
  "keeps_settled s s' \<longleftrightarrow>
     allocated s \<le> allocated s' \<and>
     (\<forall>p < allocated s. status (heap s p) \<noteq> PENDING \<longrightarrow> heap s' p = heap s p)"

definition all_checked :: "state \<Rightarrow> bool" where
  "all_checked s \<longleftrightarrow> (\<forall>p. checked_queue s p)"

definition evolves :: "state \<Rightarrow> state \<Rightarrow> bool" where
  "evolves s s' \<longleftrightarrow> keeps_settled s s' \<and> (all_checked s \<longrightarrow> all_checked s')"

text \<open>
  \<open>allocate s\<close>: the state once the constructor has created the next promise, before it gives
  the producer to the host. \<open>logged ts s\<close>: the host's record has the tasks \<open>ts\<close> more, which
  are not pending (it has run them, or is running the last one).
\<close>

definition allocate :: "state \<Rightarrow> state" where
  "allocate s = s\<lparr>heap := (heap s)(allocated s := new_promise), allocated := allocated s + 1\<rparr>"

definition logged :: "task list \<Rightarrow> state \<Rightarrow> state" where
  "logged ts s = s\<lparr>submitted := submitted s @ ts\<rparr>"

text \<open>
  A program that only calls \<^verbatim>\<open>then\<close> and \<^verbatim>\<open>catch\<close> on the promise \<open>p\<close> and lets the host run
  the oldest of its tasks is a list of events with \<open>calls_on p\<close>. \<open>called d es\<close> lists the
  reactions of the calls of \<open>es\<close> in the order of the calls, and \<open>produced d es\<close> the producers
  these calls give to the host, when the first call creates promise \<open>d\<close>. \<open>attaches_to p t\<close>:
  the task \<open>t\<close> is the producer of a call of \<^verbatim>\<open>then\<close> or \<^verbatim>\<open>catch\<close> on \<open>p\<close>; \<open>to_attach ts\<close> lists
  the reactions the producers among the tasks \<open>ts\<close> will attach.
\<close>

definition calls_on :: "nat \<Rightarrow> event \<Rightarrow> bool" where
  "calls_on p e =
     (case e of
        Then q _ _ \<Rightarrow> q = p
      | Catch q _ \<Rightarrow> q = p
      | RunImmediate k \<Rightarrow> k = 0
      | _ \<Rightarrow> False)"

fun called :: "nat \<Rightarrow> event list \<Rightarrow> args list" where
  "called d [] = []"
| "called d (e # es) =
     (case e of
        Then _ h1 h2 \<Rightarrow> then_args d h1 h2 # called (Suc d) es
      | Catch _ h2 \<Rightarrow> catch_args d h2 # called (Suc d) es
      | _ \<Rightarrow> called d es)"

fun produced :: "nat \<Rightarrow> event list \<Rightarrow> task list" where
  "produced d [] = []"
| "produced d (e # es) =
     (case e of
        Then q h1 h2 \<Rightarrow> RunProducer d (ThenFunc q h1 h2) # produced (Suc d) es
      | Catch q h2 \<Rightarrow> RunProducer d (CatchFunc q h2) # produced (Suc d) es
      | _ \<Rightarrow> produced d es)"

definition attaches_to :: "nat \<Rightarrow> task \<Rightarrow> bool" where
  "attaches_to p t =
     (case t of
        RunProducer _ f \<Rightarrow>
          (case f of ThenFunc q _ _ \<Rightarrow> q = p | CatchFunc q _ \<Rightarrow> q = p | _ \<Rightarrow> False)
      | _ \<Rightarrow> False)"

fun to_attach :: "task list \<Rightarrow> args list" where
  "to_attach [] = []"
| "to_attach (t # ts) =
     (case t of
        RunProducer d f \<Rightarrow>
          (case f of
             ThenFunc _ h1 h2 \<Rightarrow> then_args d h1 h2 # to_attach ts
           | CatchFunc _ h2 \<Rightarrow> catch_args d h2 # to_attach ts
           | _ \<Rightarrow> to_attach ts)
      | _ \<Rightarrow> to_attach ts)"

text \<open>
  Where the reaction of a downstream promise \<open>d\<close> is. \<open>aims d a\<close>: the reaction \<open>a\<close> is linked
  to \<open>d\<close>. \<open>attaches d t\<close>: the task \<open>t\<close> is the producer of \<^verbatim>\<open>then\<close> or \<^verbatim>\<open>catch\<close> in \<open>d\<close>, which will
  attach the reaction. \<open>dispatches d t\<close>: the task \<open>t\<close> is what \<^verbatim>\<open>envoy\<close> gives to the host
  for a reaction linked to \<open>d\<close>. \<open>attaching d s\<close> counts the producers of \<open>d\<close> the host still
  has to run, \<open>waiting d s\<close> the reactions of \<open>d\<close> in the queues of pending promises, and
  \<open>dispatched d s\<close> the tasks for reactions of \<open>d\<close> the host was ever given.
\<close>

definition aims :: "nat \<Rightarrow> args \<Rightarrow> bool" where
  "aims d a \<longleftrightarrow> link_promise (link a) = VPromise d"

definition attaches :: "nat \<Rightarrow> task \<Rightarrow> bool" where
  "attaches d t =
     (case t of
        RunProducer d' f \<Rightarrow>
          (case f of ThenFunc _ _ _ \<Rightarrow> d' = d | CatchFunc _ _ \<Rightarrow> d' = d | _ \<Rightarrow> False)
      | _ \<Rightarrow> False)"

definition dispatches :: "nat \<Rightarrow> task \<Rightarrow> bool" where
  "dispatches d t =
     (case t of
        InvokeHandler _ a _ \<Rightarrow> aims d a
      | CallWith g _ \<Rightarrow> g = VFun (Resolver d) \<or> g = VFun (Rejector d)
      | RunProducer _ _ \<Rightarrow> False)"

definition attaching :: "nat \<Rightarrow> state \<Rightarrow> nat" where
  "attaching d s = length (filter (attaches d) (immediates s))"

definition weight :: "nat \<Rightarrow> state \<Rightarrow> nat \<Rightarrow> nat" where
  "weight d s p =
     (if status (heap s p) = PENDING then length (filter (aims d) (queue (heap s p))) else 0)"

definition waiting :: "nat \<Rightarrow> state \<Rightarrow> nat" where
  "waiting d s = sum (weight d s) {p. weight d s p \<noteq> 0}"

definition dispatched :: "nat \<Rightarrow> state \<Rightarrow> nat" where
  "dispatched d s = length (filter (dispatches d) (submitted s))"

definition places :: "nat \<Rightarrow> state \<Rightarrow> nat" where
  "places d s = attaching d s + waiting d s + dispatched d s"

text \<open>
  \<open>linked a\<close>: the link of the reaction \<open>a\<close> holds a promise and its own two settlement
  functions, as the links \<^verbatim>\<open>then\<close> and \<^verbatim>\<open>catch\<close> build do (lines 293-297 and 318-322).
  \<open>base s\<close>: finitely many queues hold anything, and they hold checked reactions with such
  links. \<open>good s\<close>: moreover the reaction of every promise is in one place at most, and
  nowhere for a promise that does not exist yet.
\<close>

definition linked :: "args \<Rightarrow> bool" where
  "linked a \<longleftrightarrow>
     (\<exists>d. link a = \<lparr>link_resolve = VFun (Resolver d), link_reject = VFun (Rejector d),
                    link_promise = VPromise d\<rparr>)"

definition base :: "state \<Rightarrow> bool" where
  "base s \<longleftrightarrow>
     finite {p. queue (heap s p) \<noteq> []} \<and> all_checked s \<and>
     (\<forall>p. list_all linked (queue (heap s p)))"

definition good :: "state \<Rightarrow> bool" where
  "good s \<longleftrightarrow> base s \<and> (\<forall>d. places d s \<le> 1) \<and> (\<forall>d. allocated s \<le> d \<longrightarrow> places d s = 0)"

text \<open>\<open>quiet s s'\<close>: from \<open>s\<close> to \<open>s'\<close> no promise was created and no reaction came into being.\<close>

definition quiet :: "state \<Rightarrow> state \<Rightarrow> bool" where
  "quiet s s' \<longleftrightarrow>
     allocated s' = allocated s \<and> (base s \<longrightarrow> base s' \<and> (\<forall>d. places d s' \<le> places d s))"

text \<open>The status and fate of a promise in a state.\<close>

definition outcome :: "state \<Rightarrow> nat \<Rightarrow> status \<times> val" where
  "outcome s p = (status (heap s p), fate (heap s p))"

text \<open>The status and fate of promise \<open>p\<close> after the events \<open>es\<close>, and the tasks that are
  then still with the host.\<close>

definition outcome_after :: "user \<Rightarrow> nat \<Rightarrow> event list \<Rightarrow> state \<Rightarrow> nat \<Rightarrow> status \<times> val" where
  "outcome_after U n es s p = outcome (run U n es s) p"

definition immediates_after :: "user \<Rightarrow> nat \<Rightarrow> event list \<Rightarrow> state \<Rightarrow> task list" where
  "immediates_after U n es s = immediates (run U n es s)"

definition is_throw :: "'a completion \<Rightarrow> bool" where
  "is_throw c = (case c of Throws _ _ \<Rightarrow> True | Returns _ _ \<Rightarrow> False)"

subsection \<open>Examples\<close>

text \<open>A table of user functions for the examples: function 0 returns its argument,
  function 1 throws the string \<^verbatim>\<open>"boom"\<close>, function 2 calls \<^verbatim>\<open>this.link.resolve(1)\<close> and then
  throws the string \<^verbatim>\<open>"late"\<close>, every other one returns 7.\<close>

definition demo :: user where
  "demo k v =
     (if k = 0 then ([], Inr v)
      else if k = 1 then ([], Inl (VStr ''boom''))
      else if k = 2 then ([(OpResolve, VNum 1)], Inl (VStr ''late''))
      else ([], Inr (VNum 7)))"

text \<open>
  Example states. In \<open>ex_pending\<close> promise 0 is pending and two reactions wait in its queue:
  the one of \<^verbatim>\<open>then(f1)\<close>, whose downstream is promise 1, and the one of \<^verbatim>\<open>then()\<close>, whose
  downstream is promise 2. Promise 3 is another pending promise, with an empty queue.
  \<open>ex_events\<close> is a program that reaches this state.
\<close>

definition ex_pending :: state where
  "ex_pending =
     push 0 (then_args 2 VUndefined VUndefined)
       (push 0 (then_args 1 (VFun (User 1)) VUndefined) (init\<lparr>allocated := 4\<rparr>))"

definition ex_events :: "event list" where
  "ex_events =
     [New (Function (UserFunc [] None)), RunImmediate 0,
      Then 0 (VFun (User 1)) VUndefined, Then 0 VUndefined VUndefined,
      RunImmediate 0, RunImmediate 0,
      New (Function (UserFunc [] None)), RunImmediate 0]"

text \<open>\<open>ex_resolved\<close> is \<open>ex_pending\<close> after promise 0 was fulfilled with 5.\<close>

definition ex_resolved :: state where
  "ex_resolved = deliver_all 0 (queue (heap ex_pending 0)) (settle 0 RESOLVED (VNum 5) ex_pending)"

text \<open>\<open>ex_forwarded st\<close> is \<open>ex_pending\<close> after promise 0 was settled, with the status \<open>st\<close>,
  with promise 3 as its fate.\<close>

definition ex_forwarded :: "status \<Rightarrow> state" where
  "ex_forwarded st = deliver_all 3 (queue (heap ex_pending 0)) (settle 0 st (VPromise 3) ex_pending)"

text \<open>
  \<open>ex_calls\<close> is a program that calls \<^verbatim>\<open>then(f0)\<close>, lets the host run a task, and calls
  \<^verbatim>\<open>catch(f1)\<close> and \<^verbatim>\<open>then()\<close>, all on promise 0; \<open>ex_late_calls\<close> makes the three calls only.
  \<open>ex_idle\<close> is \<open>ex_resolved\<close> after the host has run its two tasks.
\<close>

definition ex_calls :: "event list" where
  "ex_calls =
     [Then 0 (VFun (User 0)) VUndefined, RunImmediate 0, Catch 0 (VFun (User 1)),
      Then 0 VUndefined VUndefined]"

definition ex_late_calls :: "event list" where
  "ex_late_calls =
     [Then 0 (VFun (User 0)) VUndefined, Catch 0 (VFun (User 1)), Then 0 VUndefined VUndefined]"

definition ex_idle :: state where
  "ex_idle = run demo 8 [RunImmediate 0, RunImmediate 0] ex_resolved"

declare chain.simps [simp del] envoy.simps [simp del] path_end.simps [simp del]

lemma push_simps [simp]:
  "status (heap (push t a s) p) = status (heap s p)"
  "fate (heap (push t a s) p) = fate (heap s p)"
  "immediates (push t a s) = immediates s"
  "submitted (push t a s) = submitted s"
  "closures (push t a s) = closures s"
  "nclosures (push t a s) = nclosures s"
  "allocated (push t a s) = allocated s"
  "queue (heap (push t a s) p) = (if p = t then queue (heap s t) @ [a] else queue (heap s p))"
  by (simp_all add: push_def)

lemma setImmediate_simps [simp]:
  "heap (setImmediate t s) = heap s"
  "immediates (setImmediate t s) = immediates s @ [t]"
  "submitted (setImmediate t s) = submitted s @ [t]"
  "closures (setImmediate t s) = closures s"
  "nclosures (setImmediate t s) = nclosures s"
  "allocated (setImmediate t s) = allocated s"
  by (simp_all add: setImmediate_def)

lemma dispatch_eq: "dispatch t a opr s = setImmediate (task_for t a opr (fate (heap s t))) s"
  by (simp add: dispatch_def task_for_def)

lemma dispatch_simps [simp]:
  "heap (dispatch t a opr s) = heap s"
  "immediates (dispatch t a opr s) = immediates s @ [task_for t a opr (fate (heap s t))]"
  "submitted (dispatch t a opr s) = submitted s @ [task_for t a opr (fate (heap s t))]"
  "closures (dispatch t a opr s) = closures s"
  "nclosures (dispatch t a opr s) = nclosures s"
  "allocated (dispatch t a opr s) = allocated s"
  by (simp_all add: dispatch_eq)

lemma not_Promise_case [simp]:
  "\<not> instanceof_Promise v \<Longrightarrow> (case v of VPromise q \<Rightarrow> A q | _ \<Rightarrow> B) = B"
  by (cases v) (simp_all add: instanceof_Promise_def)

lemma instanceof_Promise_simps [simp]:
  "instanceof_Promise (VPromise q)"
  "\<not> instanceof_Promise VUndefined"
  "\<not> instanceof_Promise VNull"
  "\<not> instanceof_Promise (VBool b)"
  "\<not> instanceof_Promise (VNum n)"
  "\<not> instanceof_Promise (VStr x)"
  "\<not> instanceof_Promise (VArr xs)"
  "\<not> instanceof_Promise (VFun f)"
  "\<not> instanceof_Promise (VTypeError m)"
  "\<not> instanceof_Promise (VRangeError m)"
  "\<not> instanceof_Promise stack_overflow"
  by (simp_all add: instanceof_Promise_def stack_overflow_def)

lemma is_function_simps [simp]:
  "is_function (VFun f)"
  "\<not> is_function (VPromise q)"
  "\<not> is_function VUndefined"
  "\<not> is_function VNull"
  "\<not> is_function (VBool b)"
  "\<not> is_function (VNum n)"
  "\<not> is_function (VStr x)"
  "\<not> is_function (VArr xs)"
  "\<not> is_function (VTypeError m)"
  "\<not> is_function (VRangeError m)"
  by (simp_all add: is_function_def)

lemma Promise_cases:
  obtains (Promise) q where "v = VPromise q" | (Other) "\<not> instanceof_Promise v"
  by (cases v) simp_all

lemma state_of_simps [simp]:
  "state_of (Returns x s) = s"
  "state_of (Throws e s) = s"
  by (simp_all add: state_of_def)

lemma returning_simps [simp]:
  "returning x (Returns y s) = Returns x s"
  "returning x (Throws e s) = Throws e s"
  "state_of (returning x c) = state_of c"
  by (simp_all add: returning_def split: completion.splits)

lemma discard_simps [simp]:
  "discard (Returns y s) = Returns () s"
  "discard (Throws e s) = Throws e s"
  "state_of (discard c) = state_of c"
  by (simp_all add: discard_def split: completion.splits)

lemma finish_simps [simp]:
  "finish (Inl e) s = Throws e s"
  "finish (Inr x) s = Returns x s"
  "state_of (finish r s) = s"
  by (simp_all add: finish_def split: sum.splits)

lemma settle_simps [simp]:
  "status (heap (settle p st v s) p') = (if p' = p then st else status (heap s p'))"
  "fate (heap (settle p st v s) p') = (if p' = p then v else fate (heap s p'))"
  "queue (heap (settle p st v s) p') = queue (heap s p')"
  "immediates (settle p st v s) = immediates s"
  "submitted (settle p st v s) = submitted s"
  "closures (settle p st v s) = closures s"
  "nclosures (settle p st v s) = nclosures s"
  "allocated (settle p st v s) = allocated s"
  by (simp_all add: settle_def)

lemma deliver_all_simps [simp]:
  "status (heap (deliver_all t as s) p) = status (heap s p)"
  "fate (heap (deliver_all t as s) p) = fate (heap s p)"
  "closures (deliver_all t as s) = closures s"
  "nclosures (deliver_all t as s) = nclosures s"
  "allocated (deliver_all t as s) = allocated s"
  by (simp_all add: deliver_all_def)

lemma deliver_all_queue:
  "queue (heap (deliver_all t as s) p) =
     (if p = t \<and> status (heap s t) = PENDING then queue (heap s t) @ as else queue (heap s p))"
  by (simp add: deliver_all_def)

lemma deliver_all_immediates:
  "immediates (deliver_all t as s) =
     (if status (heap s t) = PENDING then immediates s
      else immediates s @ map (\<lambda>a. task_for t a (op_of (status (heap s t))) (fate (heap s t))) as)"
  by (simp add: deliver_all_def)

lemma deliver_all_submitted:
  "submitted (deliver_all t as s) =
     (if status (heap s t) = PENDING then submitted s
      else submitted s @ map (\<lambda>a. task_for t a (op_of (status (heap s t))) (fate (heap s t))) as)"
  by (simp add: deliver_all_def)

lemma deliver_all_Nil [simp]: "deliver_all t [] s = s"
  by (simp add: deliver_all_def)

lemma deliver_all_append:
  "deliver_all t (as @ bs) s = deliver_all t bs (deliver_all t as s)"
  by (simp add: deliver_all_def)

lemma deliver_one_pending:
  "status (heap s t) = PENDING \<Longrightarrow> deliver_all t [a] s = push t a s"
  by (simp add: deliver_all_def push_def)

lemma deliver_one_settled:
  "status (heap s t) \<noteq> PENDING \<Longrightarrow> deliver_all t [a] s = dispatch t a (op_of (status (heap s t))) s"
  by (simp add: deliver_all_def dispatch_eq setImmediate_def)

lemma check_args_Inr: "check_args x = Inr a \<Longrightarrow> x = Object a"
  by (cases x) (auto simp: check_args_def split: if_splits)

lemma check_args_Object: "check_args x = Inr a \<Longrightarrow> check_args (Object a) = Inr a"
  using check_args_Inr by blast

lemma op_of_status_of [simp]: "op_of (status_of opr) = opr"
  by (cases opr) (simp_all add: op_of_def status_of_def)

lemma status_of_not_pending [simp]: "status_of opr \<noteq> PENDING"
  by (cases opr) (simp_all add: status_of_def)

lemma status_of_op_of: "st \<noteq> PENDING \<Longrightarrow> status_of (op_of st) = st"
  by (cases st) (simp_all add: status_of_def op_of_def)

section \<open>Where a reaction ends\<close>

lemma path_end_pending [simp]: "status (heap s p) = PENDING \<Longrightarrow> path_end n s p = Some p"
  by (subst path_end.simps) simp

lemma path_end_plain [simp]: "\<not> instanceof_Promise (fate (heap s p)) \<Longrightarrow> path_end n s p = Some p"
  by (subst path_end.simps) simp

lemma path_end_step:
  "status (heap s p) \<noteq> PENDING \<Longrightarrow> fate (heap s p) = VPromise q \<Longrightarrow>
   path_end n s p = (case n of 0 \<Rightarrow> None | Suc m \<Rightarrow> path_end m s q)"
  by (subst path_end.simps) simp

lemma path_end_frame:
  "(\<And>q. status (heap s' q) = status (heap s q) \<and> fate (heap s' q) = fate (heap s q)) \<Longrightarrow>
   path_end n s' p = path_end n s p"
proof (induction n arbitrary: p)
  case 0
  then show ?case by (subst (1 2) path_end.simps) (simp split: val.splits)
next
  case (Suc n)
  from Suc.prems Suc.IH[OF Suc.prems] show ?case
    by (subst (1 2) path_end.simps) (simp split: val.splits)
qed

lemma path_end_end:
  "path_end n s p = Some t \<Longrightarrow>
   status (heap s t) = PENDING \<or> \<not> instanceof_Promise (fate (heap s t))"
proof (induction n arbitrary: p)
  case 0
  then show ?case
    by (subst (asm) path_end.simps) (auto split: if_splits val.splits)
next
  case (Suc n)
  from Suc.prems Suc.IH show ?case
    by (subst (asm) path_end.simps) (auto split: if_splits val.splits)
qed

lemma path_end_more:
  "path_end n s p = Some t \<Longrightarrow> path_end (Suc n) s p = Some t"
proof (induction n arbitrary: p)
  case 0
  then show ?case
    by (subst (asm) path_end.simps, subst path_end.simps) (auto split: if_splits val.splits)
next
  case (Suc n)
  from Suc.prems Suc.IH show ?case
    by (subst (asm) path_end.simps, subst path_end.simps) (auto split: if_splits val.splits)
qed

text \<open>A promise settled with itself: the path has no end, whatever room the stack has.\<close>

lemma path_end_self:
  "status (heap s p) \<noteq> PENDING \<Longrightarrow> fate (heap s p) = VPromise p \<Longrightarrow> path_end n s p = None"
  by (induction n) (simp_all add: path_end_step)

section \<open>What attaching and settling do to a state\<close>

lemma chain_unchecked: "check_args x = Inl e \<Longrightarrow> chain n p x s = Throws e s"
  by (subst chain.simps) simp

lemma chain_envoy_eq:
  "check_args (Object a) = Inr a \<Longrightarrow>
   chain n p (Object a) s =
     (case path_end n s p of
        None \<Rightarrow> Throws stack_overflow s
      | Some t \<Rightarrow> Returns () (deliver_all t [a] s)) \<and>
   (status (heap s p) \<noteq> PENDING \<longrightarrow>
    envoy n p (Object a) (op_of (status (heap s p))) s =
     (case path_end n s p of
        None \<Rightarrow> Throws stack_overflow s
      | Some t \<Rightarrow> Returns () (deliver_all t [a] s)))"
proof (induction n arbitrary: p)
  case 0
  have e: "envoy 0 p (Object a) (op_of (status (heap s p))) s =
     (case path_end 0 s p of
        None \<Rightarrow> Throws stack_overflow s
      | Some t \<Rightarrow> Returns () (deliver_all t [a] s))" if "status (heap s p) \<noteq> PENDING"
  proof (cases "fate (heap s p)" rule: Promise_cases)
    case (Promise q)
    with that show ?thesis by (subst envoy.simps) (simp add: path_end_step)
  next
    case Other
    with that show ?thesis by (subst envoy.simps) (simp add: deliver_one_settled)
  qed
  show ?case
  proof (cases "status (heap s p)")
    case PENDING
    with 0 show ?thesis by (subst chain.simps) (simp add: deliver_one_pending)
  next
    case RESOLVED
    with 0 e show ?thesis by (subst chain.simps) (simp add: op_of_def)
  next
    case REJECTED
    with 0 e show ?thesis by (subst chain.simps) (simp add: op_of_def)
  qed
next
  case (Suc n)
  have e: "envoy (Suc n) p (Object a) (op_of (status (heap s p))) s =
     (case path_end (Suc n) s p of
        None \<Rightarrow> Throws stack_overflow s
      | Some t \<Rightarrow> Returns () (deliver_all t [a] s))" if "status (heap s p) \<noteq> PENDING"
  proof (cases "fate (heap s p)" rule: Promise_cases)
    case (Promise q)
    with that Suc.IH[OF Suc.prems, of q] show ?thesis
      by (subst envoy.simps) (simp add: path_end_step)
  next
    case Other
    with that show ?thesis by (subst envoy.simps) (simp add: deliver_one_settled)
  qed
  show ?case
  proof (cases "status (heap s p)")
    case PENDING
    with Suc.prems show ?thesis by (subst chain.simps) (simp add: deliver_one_pending)
  next
    case RESOLVED
    with Suc.prems e show ?thesis by (subst chain.simps) (simp add: op_of_def)
  next
    case REJECTED
    with Suc.prems e show ?thesis by (subst chain.simps) (simp add: op_of_def)
  qed
qed

lemma chain_eq:
  assumes "check_args x = Inr a"
  shows "chain n p x s =
     (case path_end n s p of
        None \<Rightarrow> Throws stack_overflow s
      | Some t \<Rightarrow> Returns () (deliver_all t [a] s))"
  using chain_envoy_eq[OF check_args_Object[OF assms]] check_args_Inr[OF assms] by simp

lemma envoy_eq:
  assumes "check_args (Object a) = Inr a" and "status (heap s p) \<noteq> PENDING"
    and "opr = op_of (status (heap s p))"
  shows "envoy n p (Object a) opr s =
     (case path_end n s p of
        None \<Rightarrow> Throws stack_overflow s
      | Some t \<Rightarrow> Returns () (deliver_all t [a] s))"
  using chain_envoy_eq[OF assms(1)] assms(2,3) by simp

text \<open>\<^verbatim>\<open>chain\<close> in the form of the source: the checks, then the switch on the status.\<close>

lemma chain_switch:
  "chain n p x s =
     (case check_args x of
        Inl e \<Rightarrow> Throws e s
      | Inr a \<Rightarrow>
          (case status (heap s p) of
             PENDING \<Rightarrow> Returns () (push p a s)
           | RESOLVED \<Rightarrow> envoy n p (Object a) OpResolve s
           | REJECTED \<Rightarrow> envoy n p (Object a) OpReject s))"
  by (rule chain.simps)

lemma chain_result:
  "(\<exists>e. chain n p x s = Throws e s) \<or>
   (\<exists>a t. check_args x = Inr a \<and> path_end n s p = Some t \<and>
          chain n p x s = Returns () (deliver_all t [a] s))"
proof (cases "check_args x")
  case (Inl e)
  then show ?thesis by (simp add: chain_unchecked)
next
  case (Inr a)
  then show ?thesis by (cases "path_end n s p") (simp_all add: chain_eq)
qed

lemma only_attaches_refl [simp]: "only_attaches s s"
  by (simp add: only_attaches_def)

lemma only_attaches_trans:
  assumes "only_attaches s s'" and "only_attaches s' s''"
  shows "only_attaches s s''"
proof -
  have q: "\<exists>as. queue (heap s'' q) = queue (heap s q) @ as" for q
  proof -
    from assms(1) obtain as where "queue (heap s' q) = queue (heap s q) @ as"
      unfolding only_attaches_def by blast
    moreover from assms(2) obtain bs where "queue (heap s'' q) = queue (heap s' q) @ bs"
      unfolding only_attaches_def by blast
    ultimately have "queue (heap s'' q) = queue (heap s q) @ (as @ bs)" by simp
    then show ?thesis by blast
  qed
  have i: "\<exists>ts. immediates s'' = immediates s @ ts \<and> submitted s'' = submitted s @ ts"
  proof -
    from assms(1) obtain ts where "immediates s' = immediates s @ ts" "submitted s' = submitted s @ ts"
      unfolding only_attaches_def by blast
    moreover from assms(2) obtain us where "immediates s'' = immediates s' @ us"
      "submitted s'' = submitted s' @ us"
      unfolding only_attaches_def by blast
    ultimately have "immediates s'' = immediates s @ (ts @ us) \<and> submitted s'' = submitted s @ (ts @ us)"
      by simp
    then show ?thesis by blast
  qed
  have r: "status (heap s'' q) = status (heap s q) \<and> fate (heap s'' q) = fate (heap s q) \<and>
           (status (heap s q) \<noteq> PENDING \<longrightarrow> queue (heap s'' q) = queue (heap s q))" for q
    using assms unfolding only_attaches_def by simp
  have o: "closures s'' = closures s \<and> nclosures s'' = nclosures s \<and> allocated s'' = allocated s"
    using assms unfolding only_attaches_def by simp
  show ?thesis
    unfolding only_attaches_def using q i r o by blast
qed

lemma only_attaches_deliver_all [simp]: "only_attaches s (deliver_all t as s)"
  by (simp add: only_attaches_def deliver_all_queue deliver_all_immediates deliver_all_submitted)

lemma only_attaches_dispatch [simp]: "only_attaches s (dispatch p a opr s)"
  by (simp add: only_attaches_def)

lemma chain_only_attaches: "only_attaches s (state_of (chain n p x s))"
  using chain_result[of n p x s] by auto

lemma envoy_only_attaches: "only_attaches s (state_of (envoy n p x opr s))"
proof (cases "fate (heap s p)" rule: Promise_cases)
  case (Promise q)
  then show ?thesis
    using chain_only_attaches by (subst envoy.simps) (simp split: nat.splits)
next
  case Other
  then show ?thesis by (subst envoy.simps) (simp split: chain_arg.splits)
qed

lemma enlighten_loop_only_attaches:
  "only_attaches s (state_of (enlighten_loop n p opr i maxI s))"
proof (induction n p opr i maxI s rule: enlighten_loop.induct)
  case (1 n p opr i maxI s)
  show ?case
  proof (cases "i < maxI")
    case False
    then show ?thesis by simp
  next
    case True
    from envoy_only_attaches[of s n p "queue_at (queue (heap s p)) i" opr]
    have a: "only_attaches s (state_of (envoy n p (queue_at (queue (heap s p)) i) opr s))" .
    show ?thesis
    proof (cases "envoy n p (queue_at (queue (heap s p)) i) opr s")
      case (Throws e s')
      with True a show ?thesis by simp
    next
      case (Returns u s')
      from "1.IH"[OF True Returns] a Returns True show ?thesis
        by (auto intro: only_attaches_trans)
    qed
  qed
qed

lemma enlighten_only_attaches: "only_attaches s (state_of (enlighten n p opr s))"
  unfolding enlighten_def by (rule enlighten_loop_only_attaches)

lemma enlighten_loop_eq:
  "status (heap s p) \<noteq> PENDING \<Longrightarrow> opr = op_of (status (heap s p)) \<Longrightarrow>
   checked_queue s p \<Longrightarrow> m \<le> length (queue (heap s p)) \<Longrightarrow>
   enlighten_loop n p opr i m s =
     (case path_end n s p of
        None \<Rightarrow> if i < m then Throws stack_overflow s else Returns () s
      | Some t \<Rightarrow> Returns () (deliver_all t (drop i (take m (queue (heap s p)))) s))"
proof (induction n p opr i m s rule: enlighten_loop.induct)
  case (1 n p opr i m s)
  show ?case
  proof (cases "i < m")
    case False
    then show ?thesis by (simp split: option.splits)
  next
    case True
    let ?q = "queue (heap s p)"
    from True "1.prems"(4) have il: "i < length ?q" by simp
    then have at: "queue_at ?q i = Object (?q ! i)" by (simp add: queue_at_def)
    from "1.prems"(3) il have ok: "check_args (Object (?q ! i)) = Inr (?q ! i)"
      by (simp add: checked_queue_def list_all_length)
    note e = envoy_eq[OF ok "1.prems"(1) "1.prems"(2), of n]
    show ?thesis
    proof (cases "path_end n s p")
      case None
      with e True at show ?thesis by simp
    next
      case (Some t)
      let ?s1 = "deliver_all t [?q ! i] s"
      from e Some at have e1: "envoy n p (queue_at ?q i) opr s = Returns () ?s1" by simp
      have tp: "\<not> (p = t \<and> status (heap s t) = PENDING)" using "1.prems"(1) by auto
      then have q1: "queue (heap ?s1 p) = ?q" by (simp add: deliver_all_queue)
      have f1: "path_end n ?s1 p = Some t"
        using Some path_end_frame[of ?s1 s n p] by simp
      have "enlighten_loop n p opr (i + 1) m ?s1 =
              Returns () (deliver_all t (drop (i + 1) (take m (queue (heap ?s1 p)))) ?s1)"
        using "1.IH"[OF True e1] "1.prems" q1 f1
        by (simp add: checked_queue_def)
      then have "enlighten_loop n p opr i m s =
              Returns () (deliver_all t (drop (i + 1) (take m ?q)) ?s1)"
        using True e1 q1 by simp
      also have "deliver_all t (drop (i + 1) (take m ?q)) ?s1 =
                 deliver_all t ([?q ! i] @ drop (i + 1) (take m ?q)) s"
        by (simp only: deliver_all_append)
      also have "[?q ! i] @ drop (i + 1) (take m ?q) = drop i (take m ?q)"
      proof -
        have "i < length (take m ?q)" using True il by simp
        from Cons_nth_drop_Suc[OF this] True show ?thesis by simp
      qed
      finally show ?thesis using Some by simp
    qed
  qed
qed

lemma enlighten_eq:
  assumes "status (heap s p) \<noteq> PENDING" and "opr = op_of (status (heap s p))"
    and "checked_queue s p"
  shows "enlighten n p opr s =
     (case path_end n s p of
        None \<Rightarrow> if queue (heap s p) = [] then Returns () s else Throws stack_overflow s
      | Some t \<Rightarrow> Returns () (deliver_all t (queue (heap s p)) s))"
  using enlighten_loop_eq[OF assms, of "length (queue (heap s p))" n 0]
  by (auto simp: enlighten_def split: option.splits)

lemma enlighten_empty: "queue (heap s p) = [] \<Longrightarrow> enlighten n p opr s = Returns () s"
  by (simp add: enlighten_def)

lemma checked_queue_settle [simp]: "checked_queue (settle p st v s) q = checked_queue s q"
  by (simp add: checked_queue_def)

text \<open>What a settlement function does, in full, to a promise whose queue holds checked
  reactions.\<close>

lemma call_settlement_eq:
  assumes "checked_queue s p"
  shows "call_settlement n p c s =
     (if status (heap s p) \<noteq> PENDING then Returns () s
      else (case path_end n (settle p (status_of (fst c)) (snd c) s) p of
              None \<Rightarrow> if queue (heap s p) = [] then Returns () (settle p (status_of (fst c)) (snd c) s)
                      else Throws stack_overflow (settle p (status_of (fst c)) (snd c) s)
            | Some t \<Rightarrow> Returns () (deliver_all t (queue (heap s p))
                                      (settle p (status_of (fst c)) (snd c) s))))"
proof (cases "status (heap s p) = PENDING")
  case False
  then show ?thesis by (cases "fst c") (simp_all add: call_settlement_def resolver_def rejector_def)
next
  case True
  have e: "enlighten n p opr (settle p (status_of opr) v s) =
     (case path_end n (settle p (status_of opr) v s) p of
        None \<Rightarrow> if queue (heap s p) = [] then Returns () (settle p (status_of opr) v s)
                else Throws stack_overflow (settle p (status_of opr) v s)
      | Some t \<Rightarrow> Returns () (deliver_all t (queue (heap s p)) (settle p (status_of opr) v s)))"
    for opr v
    using enlighten_eq[of "settle p (status_of opr) v s" p opr n] assms
    by (simp split: option.splits)
  show ?thesis
  proof (cases "fst c")
    case OpResolve
    with True e[of OpResolve "snd c"] show ?thesis
      by (simp add: call_settlement_def resolver_def status_of_def split: option.splits)
  next
    case OpReject
    with True e[of OpReject "snd c"] show ?thesis
      by (simp add: call_settlement_def rejector_def status_of_def split: option.splits)
  qed
qed

lemma resolver_call: "resolver n p v s = call_settlement n p (OpResolve, v) s"
  by (simp add: call_settlement_def)

lemma rejector_call: "rejector n p v s = call_settlement n p (OpReject, v) s"
  by (simp add: call_settlement_def)

lemma call_settlement_settled:
  "status (heap s p) \<noteq> PENDING \<Longrightarrow> call_settlement n p c s = Returns () s"
  by (cases "fst c") (simp_all add: call_settlement_def resolver_def rejector_def)

lemma resolver_settled: "status (heap s p) \<noteq> PENDING \<Longrightarrow> resolver n p v s = Returns () s"
  by (simp add: resolver_def)

lemma rejector_settled: "status (heap s p) \<noteq> PENDING \<Longrightarrow> rejector n p v s = Returns () s"
  by (simp add: rejector_def)

lemma call_settlement_only_attaches:
  "status (heap s p) = PENDING \<Longrightarrow>
   only_attaches (settle p (status_of (fst c)) (snd c) s) (state_of (call_settlement n p c s))"
  using enlighten_only_attaches
  by (cases "fst c") (simp_all add: call_settlement_def resolver_def rejector_def status_of_def)

lemma call_settlement_outcome:
  assumes "status (heap s p) = PENDING"
  shows "outcome (state_of (call_settlement n p c s)) p = (status_of (fst c), snd c)"
  using call_settlement_only_attaches[OF assms, of c n]
  by (simp add: only_attaches_def outcome_def)

lemma settle_fresh:
  assumes "status (heap s d) = PENDING" and "queue (heap s d) = []"
  shows "call_settlement n d (opr, v) s = Returns () (settle d (status_of opr) v s)"
  using assms
  by (cases opr) (simp_all add: call_settlement_def resolver_def rejector_def status_of_def enlighten_empty)

section \<open>What every event preserves\<close>

lemma keeps_settled_refl [simp]: "keeps_settled s s"
  by (simp add: keeps_settled_def)

lemma keeps_settled_trans:
  "keeps_settled s s' \<Longrightarrow> keeps_settled s' s'' \<Longrightarrow> keeps_settled s s''"
  unfolding keeps_settled_def
  by (metis (no_types, lifting) le_trans less_le_trans)

lemma only_attaches_keeps_settled:
  assumes "only_attaches s s'"
  shows "keeps_settled s s'"
proof -
  have "heap s' p = heap s p" if "status (heap s p) \<noteq> PENDING" for p
    using assms that by (intro promise.equality) (simp_all add: only_attaches_def)
  then show ?thesis using assms by (simp add: keeps_settled_def only_attaches_def)
qed

lemma settle_keeps_settled:
  "status (heap s p) = PENDING \<Longrightarrow> keeps_settled s (settle p st v s)"
  by (auto simp: keeps_settled_def settle_def)

lemma all_checked_deliver_all:
  assumes "all_checked s" and "list_all (\<lambda>a. check_args (Object a) = Inr a) as"
  shows "all_checked (deliver_all t as s)"
  using assms by (simp add: all_checked_def checked_queue_def deliver_all_queue)

lemma all_checked_settle [simp]: "all_checked (settle p st v s) = all_checked s"
  by (simp add: all_checked_def)

lemma chain_all_checked:
  assumes "all_checked s"
  shows "all_checked (state_of (chain n p x s))"
  using chain_result[of n p x s] assms check_args_Object
  by (auto intro!: all_checked_deliver_all)

lemma envoy_all_checked:
  assumes "all_checked s"
  shows "all_checked (state_of (envoy n p x opr s))"
proof (cases "fate (heap s p)" rule: Promise_cases)
  case (Promise q)
  then show ?thesis
    using chain_all_checked[OF assms] assms by (subst envoy.simps) (simp split: nat.splits)
next
  case Other
  have "checked_queue (dispatch p a opr s) q = checked_queue s q" for q a
    by (simp add: checked_queue_def)
  with Other assms show ?thesis
    by (subst envoy.simps) (simp add: all_checked_def split: chain_arg.splits)
qed

lemma enlighten_loop_all_checked:
  "all_checked s \<Longrightarrow> all_checked (state_of (enlighten_loop n p opr i maxI s))"
proof (induction n p opr i maxI s rule: enlighten_loop.induct)
  case (1 n p opr i maxI s)
  show ?case
  proof (cases "i < maxI")
    case False
    with "1.prems" show ?thesis by simp
  next
    case True
    from envoy_all_checked[OF "1.prems", of n p "queue_at (queue (heap s p)) i" opr]
    have a: "all_checked (state_of (envoy n p (queue_at (queue (heap s p)) i) opr s))" .
    show ?thesis
    proof (cases "envoy n p (queue_at (queue (heap s p)) i) opr s")
      case (Throws e s')
      with True a show ?thesis by simp
    next
      case (Returns u s')
      from "1.IH"[OF True Returns] a Returns True show ?thesis by simp
    qed
  qed
qed

lemma evolves_refl [simp]: "evolves s s"
  by (simp add: evolves_def)

lemma evolves_trans: "evolves s s' \<Longrightarrow> evolves s' s'' \<Longrightarrow> evolves s s''"
  unfolding evolves_def using keeps_settled_trans by blast

lemma enlighten_evolves: "evolves s (state_of (enlighten n p opr s))"
proof -
  have "all_checked (state_of (enlighten n p opr s))" if "all_checked s"
    using that enlighten_loop_all_checked unfolding enlighten_def by blast
  with enlighten_only_attaches[of s n p opr] show ?thesis
    by (simp add: evolves_def only_attaches_keeps_settled)
qed

lemma settle_evolves:
  "status (heap s p) = PENDING \<Longrightarrow> evolves s (settle p st v s)"
  by (simp add: evolves_def settle_keeps_settled)

lemma resolver_evolves: "evolves s (state_of (resolver n p v s))"
proof (cases "status (heap s p) = PENDING")
  case True
  from enlighten_evolves[of "settle p RESOLVED v s" n p OpResolve] settle_evolves[OF True] True
  show ?thesis by (auto simp: resolver_def intro: evolves_trans)
next
  case False
  then show ?thesis by (simp add: resolver_def)
qed

lemma rejector_evolves: "evolves s (state_of (rejector n p v s))"
proof (cases "status (heap s p) = PENDING")
  case True
  from enlighten_evolves[of "settle p REJECTED v s" n p OpReject] settle_evolves[OF True] True
  show ?thesis by (auto simp: rejector_def intro: evolves_trans)
next
  case False
  then show ?thesis by (simp add: rejector_def)
qed

lemma evolves_closures:
  "heap s' = heap s \<Longrightarrow> allocated s' = allocated s \<Longrightarrow> evolves s s'"
  by (simp add: evolves_def keeps_settled_def all_checked_def checked_queue_def)

lemma all_fulfil_evolves: "evolves s (state_of (all_fulfil n c index v s))"
proof (cases "all_status (closures s c)")
  case False
  then show ?thesis by (simp add: all_fulfil_def)
next
  case True
  let ?s1 = "s\<lparr>closures := (closures s)(c := (closures s c)
                    \<lparr>results := set_index (results (closures s c)) index v,
                     remaining := remaining (closures s c) - 1\<rparr>)\<rparr>"
  have e1: "evolves s ?s1" by (rule evolves_closures) simp_all
  show ?thesis
  proof (cases "remaining (closures ?s1 c) = 0")
    case False
    with True have "state_of (all_fulfil n c index v s) = ?s1"
      by (simp add: all_fulfil_def Let_def)
    with e1 show ?thesis by simp
  next
    case z: True
    with True
    have "state_of (all_fulfil n c index v s) =
          state_of (resolver n (all_promise (closures ?s1 c)) (VArr (results (closures ?s1 c))) ?s1)"
      by (simp add: all_fulfil_def Let_def)
    with resolver_evolves[of ?s1] e1 show ?thesis
      by (auto intro: evolves_trans)
  qed
qed

lemma all_reject_evolves: "evolves s (state_of (all_reject n c reason s))"
proof -
  let ?s1 = "s\<lparr>closures := (closures s)(c := (closures s c)\<lparr>all_status := False\<rparr>)\<rparr>"
  have e1: "evolves s ?s1" by (rule evolves_closures) simp_all
  have "state_of (all_reject n c reason s) =
        state_of (rejector n (all_promise (closures ?s1 c)) reason ?s1)"
    by (simp add: all_reject_def Let_def)
  with rejector_evolves[of ?s1] e1 show ?thesis
    by (auto intro: evolves_trans)
qed

lemma call_fn_evolves: "evolves s (state_of (call_fn U n f v s))"
  using resolver_evolves rejector_evolves all_fulfil_evolves all_reject_evolves
  by (cases f) (simp_all split: list.splits)

lemma call_val_evolves: "evolves s (state_of (call_val U n g v s))"
  using call_fn_evolves by (cases g) (simp_all add: call_val_def)

lemma this_link_calls_evolves: "evolves s (state_of (this_link_calls U n a cs s))"
proof (induction cs arbitrary: s)
  case Nil
  then show ?case by simp
next
  case (Cons c cs)
  from call_val_evolves[of s U n "link_of a (fst c)" "snd c"] Cons[of "state_of (call_val U n (link_of a (fst c)) (snd c) s)"]
  show ?case
    by (cases "call_val U n (link_of a (fst c)) (snd c) s") (auto intro: evolves_trans)
qed

lemma call_method_user:
  "handler_of a opr = VFun (User k) \<Longrightarrow>
   call_method U n a opr v s =
     (case this_link_calls U n a (fst (U k v)) s of
        Throws e s' \<Rightarrow> Throws e s'
      | Returns _ s' \<Rightarrow> finish (snd (U k v)) s')"
  by (simp add: call_method_def)

lemma call_method_other:
  "(\<And>k. handler_of a opr \<noteq> VFun (User k)) \<Longrightarrow>
   call_method U n a opr v s = call_val U n (handler_of a opr) v s"
  by (simp add: call_method_def split: val.splits fn.splits)

lemma call_method_evolves: "evolves s (state_of (call_method U n a opr v s))"
proof (cases "\<exists>k. handler_of a opr = VFun (User k)")
  case True
  then obtain k where k: "handler_of a opr = VFun (User k)" by blast
  from this_link_calls_evolves[of s U n a "fst (U k v)"] show ?thesis
    by (cases "this_link_calls U n a (fst (U k v)) s") (simp_all add: call_method_user[OF k])
next
  case False
  then have "call_method U n a opr v s = call_val U n (handler_of a opr) v s"
    by (intro call_method_other) blast
  with call_val_evolves show ?thesis by simp
qed

lemma Promise_evolves: "evolves s (state_of (Promise func s))"
proof (cases func)
  case (NotAFunction u)
  then show ?thesis by (simp add: Promise_def)
next
  case (Function f)
  have "checked_queue (setImmediate (RunProducer (allocated s) f)
          (s\<lparr>heap := (heap s)(allocated s := new_promise), allocated := allocated s + 1\<rparr>)) q"
    if "all_checked s" for q
    using that by (simp add: all_checked_def checked_queue_def new_promise_def)
  with Function show ?thesis
    by (simp add: Promise_def Let_def evolves_def keeps_settled_def all_checked_def)
qed

lemma call_then_evolves: "evolves s (state_of (call_then x a b s))"
  using Promise_evolves by (cases x) (simp_all add: call_then_def Promise_then_def)

lemma all_each_evolves: "evolves s (state_of (all_each c v index s))"
proof (cases "truthy v \<and> \<not> has_then v")
  case True
  then show ?thesis using call_then_evolves by (simp add: all_each_def)
next
  case False
  show ?thesis
  proof (cases "Promise_resolve v s")
    case (Returns w s')
    with Promise_evolves[of s "Function (ResolveFunc v)"] have "evolves s s'"
      by (simp add: Promise_resolve_def)
    with Returns call_then_evolves[of s' "VPromise w"] show ?thesis
      by (auto simp: all_each_def False intro: evolves_trans)
  next
    case (Throws e s')
    with Promise_evolves[of s "Function (ResolveFunc v)"] show ?thesis
      by (simp add: all_each_def Promise_resolve_def False)
  qed
qed

lemma forEach_evolves:
  assumes "\<And>v index s. evolves s (state_of (f v index s))"
  shows "evolves s (state_of (forEach f vs index s))"
proof (induction vs arbitrary: index s)
  case Nil
  then show ?case by simp
next
  case (Cons v vs)
  show ?case
  proof (cases "f v index s")
    case (Returns u s')
    with assms[of s v index] Cons[of s' "index + 1"] show ?thesis
      by (auto intro: evolves_trans)
  next
    case (Throws e s')
    with assms[of s v index] show ?thesis by simp
  qed
qed

lemma call_settlement_evolves: "evolves s (state_of (call_settlement n p c s))"
  using resolver_evolves rejector_evolves
  by (cases "fst c") (simp_all add: call_settlement_def)

lemma user_calls_evolves: "evolves s (state_of (user_calls n p cs s))"
proof (induction cs arbitrary: s)
  case Nil
  then show ?case by simp
next
  case (Cons c cs)
  from call_settlement_evolves[of s n p c] Cons[of "state_of (call_settlement n p c s)"]
  show ?case
    by (cases "call_settlement n p c s") (auto intro: evolves_trans)
qed

lemma chain_evolves: "evolves s (state_of (chain n p x s))"
  using chain_only_attaches[of s n p x] chain_all_checked[of s n p x]
  by (simp add: evolves_def only_attaches_keeps_settled)

lemma call_producer_evolves: "evolves s (state_of (call_producer n f p s))"
proof (cases f)
  case (ThenFunc that h1 h2)
  with chain_evolves show ?thesis by (simp add: call_producer_def)
next
  case (CatchFunc that h2)
  with chain_evolves show ?thesis by (simp add: call_producer_def)
next
  case (ResolveFunc v)
  with resolver_evolves call_then_evolves[of s v] show ?thesis
    by (simp add: call_producer_def)
next
  case (RejectFunc v)
  with rejector_evolves show ?thesis by (simp add: call_producer_def)
next
  case (AllFunc vs)
  let ?s1 = "s\<lparr>closures := (closures s)(nclosures s :=
                 \<lparr>results = [], remaining = int (length vs), all_status = True, all_promise = p\<rparr>),
               nclosures := nclosures s + 1\<rparr>"
  have e1: "evolves s ?s1" by (rule evolves_closures) simp_all
  from AllFunc have "call_producer n f p s = forEach (all_each (nclosures s)) vs 0 ?s1"
    by (simp add: call_producer_def Let_def)
  with forEach_evolves[of "all_each (nclosures s)" ?s1 vs 0, OF all_each_evolves] e1
  show ?thesis by (auto intro: evolves_trans)
next
  case (UserFunc cs ex)
  from user_calls_evolves[of s n p cs] UserFunc show ?thesis
    by (cases "user_calls n p cs s"; cases ex) (simp_all add: call_producer_def)
qed

lemma run_task_evolves: "evolves s (state_of (run_task U n t s))"
proof (cases t)
  case (RunProducer p f)
  from call_producer_evolves[of s n f p] have a: "evolves s (state_of (call_producer n f p s))" .
  show ?thesis
  proof (cases "call_producer n f p s")
    case (Returns u s')
    with RunProducer a show ?thesis by (simp add: run_task_def)
  next
    case (Throws ex s')
    with RunProducer a rejector_evolves[of s' n p ex] show ?thesis
      by (auto simp: run_task_def intro: evolves_trans)
  qed
next
  case (InvokeHandler p a opr)
  from call_method_evolves[of s U n a opr "fate (heap s p)"]
  have e1: "evolves s (state_of (call_method U n a opr (fate (heap s p)) s))" .
  show ?thesis
  proof (cases "call_method U n a opr (fate (heap s p)) s")
    case (Throws ex s1)
    with InvokeHandler e1 call_val_evolves[of s1 U n "link_reject (link a)" ex] show ?thesis
      by (auto simp: run_task_def intro: evolves_trans)
  next
    case (Returns x s1)
    from call_val_evolves[of s1 U n "link_resolve (link a)" x] e1 Returns
    have e2: "evolves s (state_of (call_val U n (link_resolve (link a)) x s1))"
      by (auto intro: evolves_trans)
    show ?thesis
    proof (cases "call_val U n (link_resolve (link a)) x s1")
      case r2: (Returns y s2)
      with InvokeHandler Returns e2 show ?thesis by (simp add: run_task_def)
    next
      case t2: (Throws ex s2)
      with InvokeHandler Returns e2 call_val_evolves[of s2 U n "link_reject (link a)" ex]
      show ?thesis by (auto simp: run_task_def intro: evolves_trans)
    qed
  qed
next
  case (CallWith g v)
  with call_val_evolves[of s U n g v] show ?thesis by (simp add: run_task_def)
qed

lemma run_event_evolves: "evolves s (run_event U n e s)"
proof (cases e)
  case (RunImmediate k)
  show ?thesis
  proof (cases "k < length (immediates s)")
    case False
    with RunImmediate show ?thesis by (simp add: run_event_def)
  next
    case True
    let ?s1 = "s\<lparr>immediates := take k (immediates s) @ drop (k + 1) (immediates s)\<rparr>"
    have e1: "evolves s ?s1" by (rule evolves_closures) simp_all
    with True RunImmediate run_task_evolves[of ?s1 U n "immediates s ! k"] show ?thesis
      by (auto simp: run_event_def intro: evolves_trans)
  qed
next
  case (New func)
  with Promise_evolves[of s func] show ?thesis by (simp add: run_event_def)
next
  case (Then p a b)
  with Promise_evolves[of s] show ?thesis by (simp add: run_event_def Promise_then_def)
next
  case (Catch p b)
  with Promise_evolves[of s] show ?thesis by (simp add: run_event_def Promise_catch_def)
next
  case (Resolve v)
  with Promise_evolves[of s] show ?thesis by (simp add: run_event_def Promise_resolve_def)
next
  case (Reject v)
  with Promise_evolves[of s] show ?thesis by (simp add: run_event_def Promise_reject_def)
next
  case (All vs)
  with Promise_evolves[of s] show ?thesis by (simp add: run_event_def Promise_all_def)
next
  case (Call f v)
  with call_fn_evolves[of s U n f v] show ?thesis by (simp add: run_event_def)
qed

lemma run_evolves: "evolves s (run U n es s)"
proof (induction es arbitrary: s)
  case Nil
  then show ?case by simp
next
  case (Cons e es)
  from run_event_evolves[of s U n e] Cons[of "run_event U n e s"] show ?case
    by (auto intro: evolves_trans)
qed

lemma init_all_checked: "all_checked init"
  by (simp add: all_checked_def checked_queue_def init_def new_promise_def)

text \<open>In every state a program reaches from the initial one, every queue holds checked
  objects only, and a promise, once settled, keeps its status, fate and queue whatever
  happens next.\<close>

lemma reachable_checked_queue: "checked_queue (run U n es init) p"
  using run_evolves[of init U n es] init_all_checked
  by (simp add: evolves_def all_checked_def)

lemma settled_for_ever:
  "p < allocated s \<Longrightarrow> status (heap s p) \<noteq> PENDING \<Longrightarrow> heap (run U n es s) p = heap s p"
  using run_evolves[of s U n es]
  by (simp add: evolves_def keeps_settled_def)

section \<open>Running programs\<close>

lemma run_append: "run U n (es @ fs) s = run U n fs (run U n es s)"
  by (induction es arbitrary: s) simp_all

lemma run_idle:
  "immediates s = [] \<Longrightarrow> run U n (replicate m (RunImmediate k)) s = s"
  by (induction m) (simp_all add: run_event_def)

lemma run_immediate_last:
  "run_event U n (RunImmediate (length (immediates s))) (setImmediate t s) =
     state_of (run_task U n t (s\<lparr>submitted := submitted s @ [t]\<rparr>))"
  by (simp add: run_event_def setImmediate_def)

section \<open>Settlement\<close>

lemma user_calls_settled:
  "status (heap s p) \<noteq> PENDING \<Longrightarrow> user_calls n p cs s = Returns () s"
  by (induction cs) (simp_all add: call_settlement_settled)

lemma user_calls_first: "user_calls n p (c # cs) s = call_settlement n p c s"
proof (cases "status (heap s p) = PENDING")
  case False
  then show ?thesis by (simp add: call_settlement_settled user_calls_settled)
next
  case True
  from call_settlement_outcome[OF True, of n c]
  have "status (heap (state_of (call_settlement n p c s)) p) \<noteq> PENDING"
    by (simp add: outcome_def)
  then show ?thesis
    by (cases "call_settlement n p c s") (simp_all add: user_calls_settled)
qed

lemma call_settlement_delivers:
  assumes "status (heap s p) = PENDING" and "checked_queue s p"
    and "path_end n (settle p (status_of (fst c)) (snd c) s) p = Some t"
  shows "call_settlement n p c s =
           Returns () (deliver_all t (queue (heap s p)) (settle p (status_of (fst c)) (snd c) s))"
  using assms by (simp add: call_settlement_eq)

text \<open>
  Claim C1. Whatever sequence of calls a promise's two settlement functions receive, the
  sequence does what its first call alone does. A call on a settled promise returns with
  the state unchanged: the status, the fate, every queue and the host's tasks, so
  nothing is dispatched again. The first call on a pending promise writes its argument as
  the fate and its own status; when the queue holds checked reactions and the path of
  Promise-valued fates from the promise ends within the room of the stack, it returns and
  has handed the queue over once, in order. And whatever a program does after a promise is
  settled (calls of settlement functions among other events), the promise keeps its status,
  fate and queue.
\<close>

theorem first_settle_wins:
  "user_calls n p (c # cs) s = call_settlement n p c s \<and>
   (status (heap s p) \<noteq> PENDING \<longrightarrow> call_settlement n p c s = Returns () s) \<and>
   (status (heap s p) = PENDING \<longrightarrow>
      outcome (state_of (call_settlement n p c s)) p = (status_of (fst c), snd c) \<and>
      (\<forall>t. checked_queue s p \<and> path_end n (settle p (status_of (fst c)) (snd c) s) p = Some t \<longrightarrow>
           call_settlement n p c s =
             Returns () (deliver_all t (queue (heap s p))
                           (settle p (status_of (fst c)) (snd c) s)))) \<and>
   (status (heap s p) \<noteq> PENDING \<and> p < allocated s \<longrightarrow>
      heap (run U n es s) p = heap s p)"
  by (intro conjI impI allI)
    (simp_all add: user_calls_first call_settlement_settled call_settlement_outcome
       call_settlement_delivers settled_for_ever del: user_calls.simps)

lemma then_args_checked [simp]:
  "check_args (Object (then_args d h1 h2)) = Inr (then_args d h1 h2)"
  by (simp add: check_args_def then_args_def)

lemma catch_args_checked [simp]:
  "check_args (Object (catch_args d h2)) = Inr (catch_args d h2)"
  by (simp add: check_args_def catch_args_def)

lemma ex_pending_simps:
  "status (heap ex_pending p) = PENDING"
  "queue (heap ex_pending 0) = [then_args 1 (VFun (User 1)) VUndefined, then_args 2 VUndefined VUndefined]"
  "immediates ex_pending = []"
  "checked_queue ex_pending 0"
  "queue (heap ex_pending 3) = []"
  "checked_queue ex_pending 3"
  "allocated ex_pending = 4"
  by (simp_all add: ex_pending_def init_def new_promise_def checked_queue_def)

lemma ex_resolved_simps:
  "status (heap ex_resolved p) = (if p = 0 then RESOLVED else PENDING)"
  "fate (heap ex_resolved 0) = VNum 5"
  "immediates ex_resolved =
     [InvokeHandler 0 (then_args 1 (VFun (User 1)) VUndefined) OpResolve,
      CallWith (VFun (Resolver 2)) (VNum 5)]"
  "allocated ex_resolved = 4"
  by (simp_all add: ex_resolved_def ex_pending_simps deliver_all_immediates task_for_def op_of_def
        handler_of_def link_of_def then_args_def)

text \<open>The program \<open>ex_events\<close> reaches the first example state.\<close>

lemma ex_pending_reached:
  "outcome_after demo n ex_events init 0 = (PENDING, VUndefined) \<and>
   queue (heap (run demo n ex_events init) 0) = queue (heap ex_pending 0) \<and>
   immediates_after demo n ex_events init = immediates ex_pending \<and>
   allocated (run demo n ex_events init) = allocated ex_pending"
  by code_simp

theorem first_settle_wins_witness:
  "status (heap ex_pending 0) = PENDING \<and> checked_queue ex_pending 0 \<and>
   path_end 8 (settle 0 RESOLVED (VNum 5) ex_pending) 0 = Some 0 \<and>
   user_calls 8 0 [(OpResolve, VNum 5), (OpReject, VStr ''late''), (OpResolve, VNum 6)] ex_pending =
     Returns () ex_resolved \<and>
   outcome ex_resolved 0 = (RESOLVED, VNum 5) \<and>
   status (heap ex_resolved 0) \<noteq> PENDING \<and> (0::nat) < allocated ex_resolved \<and>
   call_settlement 8 0 (OpReject, VStr ''late'') ex_resolved = Returns () ex_resolved \<and>
   outcome_after demo 8 [Call (Rejector 0) (VStr ''late''), Then 0 VUndefined VUndefined,
                       RunImmediate 0, Call (Resolver 0) (VNum 6), RunImmediate 0, RunImmediate 0]
     ex_resolved 0 = outcome ex_resolved 0"
proof -
  let ?es = "[Call (Rejector 0) (VStr ''late''), Then 0 VUndefined VUndefined,
              RunImmediate 0, Call (Resolver 0) (VNum 6), RunImmediate 0, RunImmediate 0]"
  have f: "path_end 8 (settle 0 RESOLVED (VNum 5) ex_pending) 0 = Some 0"
    by simp
  have p: "status (heap ex_pending 0) = PENDING" and q: "checked_queue ex_pending 0"
    by (simp_all add: ex_pending_simps)
  have n: "status (heap ex_resolved 0) \<noteq> PENDING" and a: "(0::nat) < allocated ex_resolved"
    and o: "outcome ex_resolved 0 = (RESOLVED, VNum 5)"
    by (simp_all add: ex_resolved_simps outcome_def)
  from first_settle_wins[of 8 0 "(OpResolve, VNum 5)" "[(OpReject, VStr ''late''), (OpResolve, VNum 6)]"
         ex_pending demo ?es] p q f
  have 1: "user_calls 8 0 [(OpResolve, VNum 5), (OpReject, VStr ''late''), (OpResolve, VNum 6)] ex_pending =
             Returns () ex_resolved"
    by (simp add: status_of_def ex_resolved_def del: user_calls.simps)
  from first_settle_wins[of 8 0 "(OpReject, VStr ''late'')" "[]" ex_resolved demo ?es] n a
  have 2: "call_settlement 8 0 (OpReject, VStr ''late'') ex_resolved = Returns () ex_resolved"
    and 3: "heap (run demo 8 ?es ex_resolved) 0 = heap ex_resolved 0"
    by simp_all
  from 3 have 4: "outcome_after demo 8 ?es ex_resolved 0 = outcome ex_resolved 0"
    by (simp add: outcome_after_def outcome_def)
  from p q f n a o 1 2 4 show ?thesis by simp
qed

section \<open>A call of then or catch and the tasks it leads to\<close>

lemma allocate_simps [simp]:
  "heap (allocate s) p = (if p = allocated s then new_promise else heap s p)"
  "allocated (allocate s) = allocated s + 1"
  "immediates (allocate s) = immediates s"
  "submitted (allocate s) = submitted s"
  "closures (allocate s) = closures s"
  "nclosures (allocate s) = nclosures s"
  by (simp_all add: allocate_def)

lemma logged_simps [simp]:
  "heap (logged ts s) = heap s"
  "allocated (logged ts s) = allocated s"
  "immediates (logged ts s) = immediates s"
  "submitted (logged ts s) = submitted s @ ts"
  "closures (logged ts s) = closures s"
  "nclosures (logged ts s) = nclosures s"
  by (simp_all add: logged_def)

lemma logged_logged [simp]: "logged ts (logged us s) = logged (us @ ts) s"
  by (simp add: logged_def)

lemma new_promise_simps [simp]:
  "status new_promise = PENDING"
  "fate new_promise = VUndefined"
  "queue new_promise = []"
  by (simp_all add: new_promise_def)

lemma path_end_logged [simp]: "path_end n (logged ts s) p = path_end n s p"
  by (rule path_end_frame) simp

lemma checked_queue_logged [simp]: "checked_queue (logged ts s) p = checked_queue s p"
  by (simp add: checked_queue_def)

lemma Promise_eq:
  "Promise (Function f) s = Returns (allocated s) (setImmediate (RunProducer (allocated s) f) (allocate s))"
  by (simp add: Promise_def Let_def allocate_def)

lemma Promise_then_eq:
  "Promise_then p h1 h2 s =
     Returns (allocated s)
       (setImmediate (RunProducer (allocated s) (ThenFunc p h1 h2))
          (s\<lparr>heap := (heap s)(allocated s := new_promise), allocated := allocated s + 1\<rparr>))"
  by (simp add: Promise_then_def Promise_def Let_def)

lemma Promise_catch_eq:
  "Promise_catch p h2 s =
     Returns (allocated s)
       (setImmediate (RunProducer (allocated s) (CatchFunc p h2))
          (s\<lparr>heap := (heap s)(allocated s := new_promise), allocated := allocated s + 1\<rparr>))"
  by (simp add: Promise_catch_def Promise_def Let_def)

lemma run_event_Then:
  "run_event U n (Then p h1 h2) s =
     setImmediate (RunProducer (allocated s) (ThenFunc p h1 h2)) (allocate s)"
  by (simp add: run_event_def Promise_then_def Promise_eq)

lemma run_event_Catch:
  "run_event U n (Catch p h2) s =
     setImmediate (RunProducer (allocated s) (CatchFunc p h2)) (allocate s)"
  by (simp add: run_event_def Promise_catch_def Promise_eq)

lemma run_event_Call: "run_event U n (Call f v) s = state_of (call_fn U n f v s)"
  by (simp add: run_event_def)

lemma run_immediate_logged:
  "k = length (immediates s) \<Longrightarrow>
   run_event U n (RunImmediate k) (setImmediate t s) = state_of (run_task U n t (logged [t] s))"
  by (simp add: run_event_def setImmediate_def logged_def)

lemma call_producer_Then [simp]:
  "call_producer n (ThenFunc p h1 h2) d s = chain n p (Object (then_args d h1 h2)) s"
  by (simp add: call_producer_def)

lemma call_producer_Catch [simp]:
  "call_producer n (CatchFunc p h2) d s = chain n p (Object (catch_args d h2)) s"
  by (simp add: call_producer_def)

text \<open>The producer of \<^verbatim>\<open>then\<close> or \<^verbatim>\<open>catch\<close>: the reaction goes where the path ends, and when
  the stack has no room for the path the downstream promise is rejected with the RangeError.\<close>

lemma producer_attaches:
  assumes "check_args (Object a) = Inr a"
    and "call_producer n f d s = chain n p (Object a) s"
  shows "run_task U n (RunProducer d f) s =
           (case path_end n s p of
              None \<Rightarrow> rejector n d stack_overflow s
            | Some t \<Rightarrow> Returns () (deliver_all t [a] s))"
  using assms by (simp add: run_task_def chain_eq split: option.splits)

lemma run_then_producer:
  "path_end n s p = Some t \<Longrightarrow>
   run_task U n (RunProducer d (ThenFunc p h1 h2)) s = Returns () (deliver_all t [then_args d h1 h2] s)"
  by (simp add: producer_attaches[OF then_args_checked])

lemma run_catch_producer:
  "path_end n s p = Some t \<Longrightarrow>
   run_task U n (RunProducer d (CatchFunc p h2)) s = Returns () (deliver_all t [catch_args d h2] s)"
  by (simp add: producer_attaches[OF catch_args_checked])

lemma call_settlement_fn:
  "call_fn U n (settlement_fn opr p) v s = returning VUndefined (call_settlement n p (opr, v) s)"
  by (cases opr) (simp_all add: settlement_fn_def call_settlement_def)

lemma run_pass_task:
  assumes "status (heap s d) = PENDING" and "queue (heap s d) = []"
  shows "run_task U n (CallWith (VFun (settlement_fn opr d)) v) s =
           Returns () (settle d (status_of opr) v s)"
  using settle_fresh[OF assms, of n opr v]
  by (simp add: run_task_def call_val_def call_settlement_fn)

lemma task_for_no_handler:
  "task_for p (then_args d VUndefined VUndefined) opr v = CallWith (VFun (settlement_fn opr d)) v"
  by (cases opr) (simp_all add: task_for_def handler_of_def link_of_def then_args_def settlement_fn_def)

text \<open>
  A call of \<^verbatim>\<open>then\<close> or \<^verbatim>\<open>catch\<close> (the event \<open>e\<close>, whose producer attaches the reaction \<open>a\<close>
  to \<open>p\<close>) followed by the two tasks it leads to, when the path from \<open>p\<close> ends at a settled
  promise \<open>t\<close>: what remains to do is the task of the reaction.
\<close>

lemma attach_runs_settled:
  assumes ev: "run_event U n e s = setImmediate (RunProducer (allocated s) f) (allocate s)"
    and prod: "\<And>s'. call_producer n f (allocated s) s' = chain n p (Object a) s'"
    and ca: "check_args (Object a) = Inr a"
    and pe: "path_end n (allocate s) p = Some t"
    and st: "status (heap (allocate s) t) \<noteq> PENDING"
  shows "run U n [e, RunImmediate (length (immediates s)), RunImmediate (length (immediates s))] s =
           state_of
             (run_task U n (task_for t a (op_of (status (heap (allocate s) t))) (fate (heap (allocate s) t)))
                (logged [RunProducer (allocated s) f,
                         task_for t a (op_of (status (heap (allocate s) t))) (fate (heap (allocate s) t))]
                   (allocate s)))"
proof -
  let ?P = "RunProducer (allocated s) f"
  let ?s0 = "allocate s"
  let ?T = "task_for t a (op_of (status (heap ?s0 t))) (fate (heap ?s0 t))"
  have e2: "run_event U n (RunImmediate (length (immediates s))) (setImmediate ?P ?s0) =
              setImmediate ?T (logged [?P] ?s0)"
  proof -
    have "run_task U n ?P (logged [?P] ?s0) = Returns () (deliver_all t [a] (logged [?P] ?s0))"
      using producer_attaches[OF ca prod, of U "logged [?P] ?s0"] pe by simp
    moreover have "deliver_all t [a] (logged [?P] ?s0) = setImmediate ?T (logged [?P] ?s0)"
      using st by (simp add: deliver_one_settled dispatch_eq)
    ultimately show ?thesis by (simp add: run_immediate_logged)
  qed
  have e3: "run_event U n (RunImmediate (length (immediates s))) (setImmediate ?T (logged [?P] ?s0)) =
              state_of (run_task U n ?T (logged [?P, ?T] ?s0))"
    by (simp add: run_immediate_logged)
  show ?thesis by (simp only: run.simps ev e2 e3)
qed

text \<open>The same when the path ends at a pending promise \<open>t\<close>, which is then settled with a
  value that is not a Promise, once the reaction is in its queue.\<close>

lemma attach_runs_pending:
  assumes ev: "run_event U n e s = setImmediate (RunProducer (allocated s) f) (allocate s)"
    and prod: "\<And>s'. call_producer n f (allocated s) s' = chain n p (Object a) s'"
    and ca: "check_args (Object a) = Inr a"
    and pe: "path_end n (allocate s) p = Some t"
    and pt: "status (heap (allocate s) t) = PENDING" and ck: "checked_queue (allocate s) t"
    and np: "\<not> instanceof_Promise v"
  shows "run U n [e, RunImmediate (length (immediates s)), Call (settlement_fn opr t) v,
                RunImmediate (length (immediates s) + length (queue (heap (allocate s) t)))] s =
           state_of
             (run_task U n (task_for t a opr v)
                (logged [task_for t a opr v]
                   (deliver_all t (queue (heap (allocate s) t))
                      (settle t (status_of opr) v
                         (push t a (logged [RunProducer (allocated s) f] (allocate s)))))))"
proof -
  let ?P = "RunProducer (allocated s) f"
  let ?s0 = "allocate s"
  let ?k = "length (immediates s)"
  let ?q = "queue (heap ?s0 t)"
  let ?s2 = "push t a (logged [?P] ?s0)"
  let ?s3 = "settle t (status_of opr) v ?s2"
  let ?s4 = "deliver_all t ?q ?s3"
  let ?T = "task_for t a opr v"
  have e2: "run_event U n (RunImmediate ?k) (setImmediate ?P ?s0) = ?s2"
  proof -
    have "run_task U n ?P (logged [?P] ?s0) = Returns () (deliver_all t [a] (logged [?P] ?s0))"
      using producer_attaches[OF ca prod, of U "logged [?P] ?s0"] pe by simp
    moreover have "deliver_all t [a] (logged [?P] ?s0) = ?s2"
      using pt by (simp add: deliver_one_pending)
    ultimately show ?thesis by (simp add: run_immediate_logged)
  qed
  have q2: "queue (heap ?s2 t) = ?q @ [a]" by simp
  have p2: "status (heap ?s2 t) = PENDING" using pt by simp
  have c2: "checked_queue ?s2 t"
    using ck ca by (simp add: checked_queue_def)
  have f3: "path_end n ?s3 t = Some t"
    using np by simp
  have "call_settlement n t (opr, v) ?s2 = Returns () (deliver_all t (?q @ [a]) ?s3)"
    using call_settlement_delivers[OF p2 c2, of n "(opr, v)" t] f3 q2 by simp
  also have "deliver_all t (?q @ [a]) ?s3 = deliver_all t [a] ?s4"
    by (rule deliver_all_append)
  also have "deliver_all t [a] ?s4 = setImmediate ?T ?s4"
    by (simp add: deliver_one_settled dispatch_eq)
  finally have cs: "call_settlement n t (opr, v) ?s2 = Returns () (setImmediate ?T ?s4)" .
  have e3: "run_event U n (Call (settlement_fn opr t) v) ?s2 = setImmediate ?T ?s4"
    by (simp only: run_event_Call call_settlement_fn cs returning_simps state_of_simps)
  have i4: "length (immediates ?s4) = ?k + length ?q"
    by (simp add: deliver_all_immediates)
  have e4: "run_event U n (RunImmediate (?k + length ?q)) (setImmediate ?T ?s4) =
              state_of (run_task U n ?T (logged [?T] ?s4))"
    using i4 by (simp add: run_immediate_logged)
  show ?thesis by (simp only: run.simps ev e2 e3 e4)
qed

text \<open>In both lemmas the downstream promise is fresh when the task of the reaction runs.\<close>

lemma fresh_after_settled:
  "status (heap (logged ts (allocate s)) (allocated s)) = PENDING"
  "queue (heap (logged ts (allocate s)) (allocated s)) = []"
  by simp_all

lemma fresh_after_pending:
  assumes "t \<noteq> allocated s"
  shows "status (heap (logged ts (deliver_all t q (settle t st v
           (push t a (logged us (allocate s)))))) (allocated s)) = PENDING"
    and "queue (heap (logged ts (deliver_all t q (settle t st v
           (push t a (logged us (allocate s)))))) (allocated s)) = []"
    and "fate (heap (logged ts (deliver_all t q (settle t st v
           (push t a (logged us (allocate s)))))) t) = v"
    and "outcome (logged ts (deliver_all t q (settle t st v
           (push t a (logged us (allocate s)))))) t = (st, v)"
  using assms by (simp_all add: deliver_all_queue outcome_def)

section \<open>then without handlers\<close>

lemma path_end_allocate_self:
  "p < allocated s \<Longrightarrow>
   status (heap s p) = PENDING \<or> \<not> instanceof_Promise (fate (heap s p)) \<Longrightarrow>
   path_end n (allocate s) p = Some p"
  by (cases "status (heap s p) = PENDING") simp_all

lemma then_passes_settled:
  assumes st: "status (heap s p) \<noteq> PENDING" and np: "\<not> instanceof_Promise (fate (heap s p))"
    and lt: "p < allocated s"
  shows "run U n [Then p VUndefined VUndefined, RunImmediate (length (immediates s)),
                RunImmediate (length (immediates s))] s =
           settle (allocated s) (status (heap s p)) (fate (heap s p))
             (logged [RunProducer (allocated s) (ThenFunc p VUndefined VUndefined),
                      CallWith (VFun (settlement_fn (op_of (status (heap s p))) (allocated s)))
                        (fate (heap s p))]
                (allocate s))"
proof -
  have pd: "p \<noteq> allocated s" using lt by simp
  have pe: "path_end n (allocate s) p = Some p"
    using lt np by (intro path_end_allocate_self) simp_all
  have st': "status (heap (allocate s) p) \<noteq> PENDING" using st pd by simp
  show ?thesis
    using attach_runs_settled[of U n "Then p VUndefined VUndefined" s "ThenFunc p VUndefined VUndefined" p
            "then_args (allocated s) VUndefined VUndefined" p,
            OF run_event_Then call_producer_Then then_args_checked pe st']
      run_pass_task[OF fresh_after_settled, of U n] status_of_op_of[OF st] pd
    by (simp add: task_for_no_handler)
qed

lemma then_passes_pending:
  assumes pe: "status (heap s p) = PENDING" and ck: "checked_queue s p"
    and np: "\<not> instanceof_Promise v" and lt: "p < allocated s"
  shows "run U n [Then p VUndefined VUndefined, RunImmediate (length (immediates s)),
                Call (settlement_fn opr p) v,
                RunImmediate (length (immediates s) + length (queue (heap s p)))] s =
           settle (allocated s) (status_of opr) v
             (logged [CallWith (VFun (settlement_fn opr (allocated s))) v]
                (deliver_all p (queue (heap s p))
                   (settle p (status_of opr) v
                      (push p (then_args (allocated s) VUndefined VUndefined)
                         (logged [RunProducer (allocated s) (ThenFunc p VUndefined VUndefined)]
                            (allocate s))))))"
proof -
  have pd: "p \<noteq> allocated s" using lt by simp
  have pe': "path_end n (allocate s) p = Some p"
    using lt pe by (intro path_end_allocate_self) simp_all
  have pt: "status (heap (allocate s) p) = PENDING" using pe pd by simp
  have ck': "checked_queue (allocate s) p" using ck pd by (simp add: checked_queue_def)
  show ?thesis
    using attach_runs_pending[of U n "Then p VUndefined VUndefined" s "ThenFunc p VUndefined VUndefined" p
            "then_args (allocated s) VUndefined VUndefined" p v opr,
            OF run_event_Then call_producer_Then then_args_checked pe' pt ck' np]
      run_pass_task[OF fresh_after_pending(1,2)[OF pd], of U n] pd
    by (simp add: task_for_no_handler)
qed

text \<open>
  Claim C8, as the code has it. The promise \<^verbatim>\<open>then()\<close> returns settles as its source does
  when the fate of the source is not a Promise: for a source that is already settled, after
  the host has run the producer of the downstream promise and the task that producer
  schedules; for a pending source, after the producer has run, the source has been settled
  and the host has run the task of the reaction. In both cases the downstream promise has
  the status and the fate of the source.
\<close>

theorem then_without_handlers_passes_plain_outcome:
  assumes "p < allocated s"
  shows "(status (heap s p) \<noteq> PENDING \<and> \<not> instanceof_Promise (fate (heap s p)) \<longrightarrow>
            outcome_after U n [Then p VUndefined VUndefined, RunImmediate (length (immediates s)),
                             RunImmediate (length (immediates s))] s (allocated s) =
              outcome s p \<and>
            outcome_after U n [Then p VUndefined VUndefined, RunImmediate (length (immediates s)),
                             RunImmediate (length (immediates s))] s p =
              outcome s p) \<and>
         (status (heap s p) = PENDING \<and> checked_queue s p \<and> \<not> instanceof_Promise v \<longrightarrow>
            outcome_after U n [Then p VUndefined VUndefined, RunImmediate (length (immediates s)),
                             Call (settlement_fn opr p) v,
                             RunImmediate (length (immediates s) + length (queue (heap s p)))]
              s (allocated s) = (status_of opr, v) \<and>
            outcome_after U n [Then p VUndefined VUndefined, RunImmediate (length (immediates s)),
                             Call (settlement_fn opr p) v,
                             RunImmediate (length (immediates s) + length (queue (heap s p)))]
              s p = (status_of opr, v))"
proof -
  have pd: "p \<noteq> allocated s" using assms by simp
  show ?thesis
    using pd then_passes_settled[OF _ _ assms, where U = U and n = n]
      then_passes_pending[OF _ _ _ assms, where v = v and U = U and opr = opr and n = n]
    by (simp add: outcome_after_def outcome_def)
qed

theorem then_without_handlers_passes_plain_outcome_witness:
  "(0::nat) < allocated ex_resolved \<and> status (heap ex_resolved 0) \<noteq> PENDING \<and>
   \<not> instanceof_Promise (fate (heap ex_resolved 0)) \<and> allocated ex_resolved = 4 \<and>
   length (immediates ex_resolved) = 2 \<and>
   outcome_after demo 8 [Then 0 VUndefined VUndefined, RunImmediate 2, RunImmediate 2] ex_resolved 4 =
     (RESOLVED, VNum 5) \<and>
   (0::nat) < allocated ex_pending \<and> status (heap ex_pending 0) = PENDING \<and>
   checked_queue ex_pending 0 \<and> \<not> instanceof_Promise (VStr ''no'') \<and> allocated ex_pending = 4 \<and>
   length (immediates ex_pending) = 0 \<and> length (queue (heap ex_pending 0)) = 2 \<and>
   outcome_after demo 8 [Then 0 VUndefined VUndefined, RunImmediate 0, Call (Rejector 0) (VStr ''no''),
                       RunImmediate 2] ex_pending 4 = (REJECTED, VStr ''no'')"
proof -
  have a: "allocated ex_resolved = 4" "allocated ex_pending = 4"
    by (simp_all add: ex_resolved_def ex_pending_def init_def)
  have l: "(0::nat) < allocated ex_resolved" "(0::nat) < allocated ex_pending"
    by (simp_all add: a)
  have r: "status (heap ex_resolved 0) \<noteq> PENDING" "\<not> instanceof_Promise (fate (heap ex_resolved 0))"
    "length (immediates ex_resolved) = 2" "outcome ex_resolved 0 = (RESOLVED, VNum 5)"
    by (simp_all add: ex_resolved_simps outcome_def)
  have p: "status (heap ex_pending 0) = PENDING" "checked_queue ex_pending 0"
    "length (immediates ex_pending) = 0" "length (queue (heap ex_pending 0)) = 2"
    by (simp_all add: ex_pending_simps)
  from then_without_handlers_passes_plain_outcome[OF l(1), where U = demo and n = 8] r a
  have 1: "outcome_after demo 8 [Then 0 VUndefined VUndefined, RunImmediate 2, RunImmediate 2] ex_resolved 4 =
     (RESOLVED, VNum 5)"
    by simp
  from then_without_handlers_passes_plain_outcome[OF l(2), where U = demo and v = "VStr ''no''" and opr = OpReject and n = 8] p a
  have 2: "outcome_after demo 8 [Then 0 VUndefined VUndefined, RunImmediate 0, Call (Rejector 0) (VStr ''no''),
                       RunImmediate 2] ex_pending 4 = (REJECTED, VStr ''no'')"
    by (simp add: settlement_fn_def status_of_def numeral_2_eq_2)
  from a l r p 1 2 show ?thesis by simp
qed

text \<open>
  The claim as written fails when the fate of the source is a Promise. First program:
  promise 1 is rejected with promise 0 as the reason, promise 0 is fulfilled with 1, and
  the promise \<^verbatim>\<open>then()\<close> of promise 1 returns, promise 2, is fulfilled with 1. Second
  program: promise 1 is fulfilled by its producer with promise 0, promise 0 is rejected with
  \<^verbatim>\<open>"x"\<close>, and promise 2 is rejected with \<^verbatim>\<open>"x"\<close> while promise 1 is \<^verbatim>\<open>RESOLVED\<close>. (The stack
  has room for 8 nested calls; one is used.)
\<close>

theorem then_without_handlers_counterexample:
  "outcome_after demo 8 [Resolve (VNum 1), Reject (VPromise 0), RunImmediate 0, RunImmediate 0,
                       Then 1 VUndefined VUndefined, RunImmediate 0, RunImmediate 0] init 1 =
     (REJECTED, VPromise 0) \<and>
   outcome_after demo 8 [Resolve (VNum 1), Reject (VPromise 0), RunImmediate 0, RunImmediate 0,
                       Then 1 VUndefined VUndefined, RunImmediate 0, RunImmediate 0] init 2 =
     (RESOLVED, VNum 1) \<and>
   outcome_after demo 8 [Reject (VStr ''x''), New (Function (UserFunc [(OpResolve, VPromise 0)] None)),
                       RunImmediate 0, RunImmediate 0,
                       Then 1 VUndefined VUndefined, RunImmediate 0, RunImmediate 0] init 1 =
     (RESOLVED, VPromise 0) \<and>
   outcome_after demo 8 [Reject (VStr ''x''), New (Function (UserFunc [(OpResolve, VPromise 0)] None)),
                       RunImmediate 0, RunImmediate 0,
                       Then 1 VUndefined VUndefined, RunImmediate 0, RunImmediate 0] init 2 =
     (REJECTED, VStr ''x'')"
  by code_simp

section \<open>Promise.all\<close>

lemma run_all_of_nothing:
  "run_task U n (RunProducer p (AllFunc [])) s =
     Returns () (s\<lparr>closures := (closures s)(nclosures s :=
                            \<lparr>results = [], remaining = 0, all_status = True, all_promise = p\<rparr>),
                         nclosures := nclosures s + 1\<rparr>)"
  by (simp add: run_task_def call_producer_def Let_def)

lemma all_of_nothing_run:
  "run U n [All [], RunImmediate 0] init =
     init\<lparr>heap := (heap init)(0 := new_promise), allocated := 1,
          submitted := [RunProducer 0 (AllFunc [])],
          closures := (closures init)(0 :=
             \<lparr>results = [], remaining = 0, all_status = True, all_promise = 0\<rparr>),
          nclosures := 1\<rparr>"
proof -
  have a: "allocated init = 0" "immediates init = []" "nclosures init = 0" "submitted init = []"
    by (simp_all add: init_def)
  have e1: "run_event U n (All []) init = setImmediate (RunProducer 0 (AllFunc [])) (allocate init)"
    by (simp add: run_event_def Promise_all_def Promise_eq a)
  have e2: "run_event U n (RunImmediate 0) (setImmediate (RunProducer 0 (AllFunc [])) (allocate init)) =
     init\<lparr>heap := (heap init)(0 := new_promise), allocated := 1,
          submitted := [RunProducer 0 (AllFunc [])],
          closures := (closures init)(0 :=
             \<lparr>results = [], remaining = 0, all_status = True, all_promise = 0\<rparr>),
          nclosures := 1\<rparr>"
    by (simp add: run_immediate_logged run_all_of_nothing a) (simp add: allocate_def logged_def a)
  show ?thesis by (simp only: run.simps e1 e2)
qed

text \<open>
  Claim C3 fails on the code. The function \<^verbatim>\<open>Promise.all\<close> gives to the constructor tests
  \<^verbatim>\<open>remaining === 0\<close> only inside the fulfilment handler of an input (line 237). For an
  empty list \<^verbatim>\<open>forEach\<close> attaches no handler, so the producer only sets its three
  variables: the promise of \<^verbatim>\<open>Promise.all([])\<close> stays pending with no task left, however
  long the host runs. (That no input is scheduled is true.)
\<close>

theorem all_of_empty_list_stays_pending:
  "run_task U n (RunProducer p (AllFunc [])) s =
     Returns () (s\<lparr>closures := (closures s)(nclosures s :=
                            \<lparr>results = [], remaining = 0, all_status = True, all_promise = p\<rparr>),
                         nclosures := nclosures s + 1\<rparr>) \<and>
   outcome_after U n ([All [], RunImmediate 0] @ replicate m (RunImmediate 0)) init 0 =
     (PENDING, VUndefined) \<and>
   immediates_after U n ([All [], RunImmediate 0] @ replicate m (RunImmediate 0)) init = [] \<and>
   submitted (run U n ([All [], RunImmediate 0] @ replicate m (RunImmediate 0)) init) =
     [RunProducer 0 (AllFunc [])]"
proof -
  let ?s = "init\<lparr>heap := (heap init)(0 := new_promise), allocated := 1,
          submitted := [RunProducer 0 (AllFunc [])],
          closures := (closures init)(0 :=
             \<lparr>results = [], remaining = 0, all_status = True, all_promise = 0\<rparr>),
          nclosures := 1\<rparr>"
  have i: "immediates ?s = []" by (simp add: init_def)
  have "run U n ([All [], RunImmediate 0] @ replicate m (RunImmediate 0)) init = ?s"
    by (simp only: run_append all_of_nothing_run run_idle[OF i])
  then show ?thesis
    by (simp add: run_all_of_nothing outcome_after_def immediates_after_def outcome_def init_def)
qed

text \<open>
  Claim C4 fails on the code. The test of line 228 is the wrong way round: an element that
  is truthy and has no \<^verbatim>\<open>then\<close> method is used as it is, and the call of its \<^verbatim>\<open>then\<close>
  (line 233) throws a TypeError, which the constructor turns into a rejection (line 169). The
  comment above \<^verbatim>\<open>Promise.all\<close> says such an element is converted by \<^verbatim>\<open>Promise.resolve\<close>.
  \<^verbatim>\<open>Promise.all([1])\<close> is rejected with the TypeError instead of being fulfilled with
  \<^verbatim>\<open>[1]\<close>.
\<close>

theorem all_of_a_plain_value_is_rejected:
  "outcome_after U n [All [VNum 1], RunImmediate 0] init 0 =
     (REJECTED, VTypeError ''then is not a function'') \<and>
   immediates_after U n [All [VNum 1], RunImmediate 0] init = []"
  by code_simp

text \<open>With Promise inputs the results arrive in the order of the list: the example of the
  specification, and the same inputs fulfilled by hand in the opposite order.\<close>

lemma all_of_promises_in_order:
  "outcome_after U n ([Resolve (VNum 1), Resolve (VNum 2), All [VPromise 0, VPromise 1]] @
                       replicate 20 (RunImmediate 0)) init 2 =
     (RESOLVED, VArr [VNum 1, VNum 2]) \<and>
   outcome_after U n ([New (Function (UserFunc [] None)), New (Function (UserFunc [] None)),
                        All [VPromise 0, VPromise 1]] @ replicate 10 (RunImmediate 0) @
                       [Call (Resolver 1) (VNum 2)] @ replicate 10 (RunImmediate 0) @
                       [Call (Resolver 0) (VNum 1)] @ replicate 10 (RunImmediate 0)) init 2 =
     (RESOLVED, VArr [VNum 1, VNum 2])"
  by code_simp

text \<open>
  Claim C5 fails on the code, by the defect of claim C4. In
  \<^verbatim>\<open>Promise.all([Promise.reject("x"), 1])\<close> the first input rejects with \<^verbatim>\<open>"x"\<close>, but the
  element 1 makes the producer throw before any input is heard, so the promise is rejected
  with the TypeError (promise 1 below; promise 0 is the input).
\<close>

theorem all_with_a_plain_value_loses_the_rejection:
  "outcome_after U n ([Reject (VStr ''x''), All [VPromise 0, VNum 1]] @
                       replicate 8 (RunImmediate 0)) init 0 = (REJECTED, VStr ''x'') \<and>
   outcome_after U n ([Reject (VStr ''x''), All [VPromise 0, VNum 1]] @
                       replicate 8 (RunImmediate 0)) init 1 =
     (REJECTED, VTypeError ''then is not a function'') \<and>
   immediates_after U n ([Reject (VStr ''x''), All [VPromise 0, VNum 1]] @
                       replicate 8 (RunImmediate 0)) init = []"
  by code_simp

text \<open>
  The two handlers of \<^verbatim>\<open>Promise.all\<close> do what claim C5 says of them: the first call of
  the rejection handler, on a combinator that is still pending, rejects it with the reason
  it was given, and after it every call of either handler leaves the whole state as it is.
\<close>

lemma all_reject_first:
  assumes "status (heap s (all_promise (closures s c))) = PENDING"
  shows "outcome (state_of (all_reject n c reason s)) (all_promise (closures s c)) = (REJECTED, reason) \<and>
         \<not> all_status (closures (state_of (all_reject n c reason s)) c)"
proof -
  let ?s1 = "s\<lparr>closures := (closures s)(c := (closures s c)\<lparr>all_status := False\<rparr>)\<rparr>"
  let ?A = "all_promise (closures s c)"
  have r: "state_of (all_reject n c reason s) = state_of (call_settlement n ?A (OpReject, reason) ?s1)"
    by (simp add: all_reject_def Let_def rejector_call)
  have p1: "status (heap ?s1 ?A) = PENDING" using assms(1) by simp
  from call_settlement_outcome[OF p1, of n "(OpReject, reason)"]
    call_settlement_only_attaches[OF p1, of "(OpReject, reason)" n] r
  show ?thesis by (simp add: outcome_def only_attaches_def status_of_def)
qed

lemma all_handlers_after_reject:
  assumes "\<not> all_status (closures s c)"
    and "status (heap s (all_promise (closures s c))) \<noteq> PENDING"
  shows "all_fulfil n c index v s = Returns VUndefined s"
    and "all_reject n c reason s = Returns VUndefined s"
proof -
  show "all_fulfil n c index v s = Returns VUndefined s"
    using assms(1) by (simp add: all_fulfil_def)
  have "(closures s c)\<lparr>all_status := False\<rparr> = closures s c"
    using assms(1) by simp
  then have "s\<lparr>closures := (closures s)(c := (closures s c)\<lparr>all_status := False\<rparr>)\<rparr> = s"
    by simp
  then show "all_reject n c reason s = Returns VUndefined s"
    using assms(2) by (simp add: all_reject_def Let_def rejector_settled)
qed

text \<open>With Promise inputs only, the example of the specification behaves as claim C5 says.\<close>

lemma all_of_promises_first_rejection:
  "outcome_after U n ([Resolve (VNum 1), Reject (VStr ''x''), Resolve (VNum 3),
                        All [VPromise 0, VPromise 1, VPromise 2]] @
                       replicate 20 (RunImmediate 0)) init 3 = (REJECTED, VStr ''x'') \<and>
   immediates_after U n ([Resolve (VNum 1), Reject (VStr ''x''), Resolve (VNum 3),
                        All [VPromise 0, VPromise 1, VPromise 2]] @
                       replicate 20 (RunImmediate 0)) init = []"
  by code_simp

section \<open>Handler arguments that are not callable\<close>

lemma stack_overflow_not_TypeError [simp]: "stack_overflow \<noteq> VTypeError m"
  by (simp add: stack_overflow_def)

lemma chain_checked_no_TypeError:
  assumes "check_args x = Inr a"
  shows "chain n p x s \<noteq> Throws (VTypeError m) s'"
  using assms by (simp add: chain_eq split: option.splits)

text \<open>
  Claim C6, as the code has it. \<^verbatim>\<open>then\<close> and \<^verbatim>\<open>catch\<close> raise nothing, whatever their
  arguments: they return the downstream promise and leave its producer with the host. The
  producer builds the reaction with \<^verbatim>\<open>null\<close> in the place of each handler argument that is
  not a function (lines 291-292 and 317), so the reaction passes the checks of \<^verbatim>\<open>chain\<close>, and
  \<^verbatim>\<open>chain\<close> throws no TypeError either: an argument that is not callable is taken as absent.
  The one exception \<^verbatim>\<open>chain\<close> can throw for such a reaction is the RangeError of a stack with
  no room for the path of Promise-valued fates from the source; it is thrown inside the
  producer, whose caller (lines 166-170) rejects the downstream promise with it.
\<close>

theorem then_and_catch_take_a_non_callable_handler_as_absent:
  "Promise_then p h1 h2 s =
     Returns (allocated s)
       (setImmediate (RunProducer (allocated s) (ThenFunc p h1 h2))
          (s\<lparr>heap := (heap s)(allocated s := new_promise), allocated := allocated s + 1\<rparr>)) \<and>
   Promise_catch p h2 s =
     Returns (allocated s)
       (setImmediate (RunProducer (allocated s) (CatchFunc p h2))
          (s\<lparr>heap := (heap s)(allocated s := new_promise), allocated := allocated s + 1\<rparr>)) \<and>
   call_producer n (ThenFunc p h1 h2) d s = chain n p (Object (then_args d h1 h2)) s \<and>
   call_producer n (CatchFunc p h2) d s = chain n p (Object (catch_args d h2)) s \<and>
   resolve (then_args d h1 h2) = (if is_function h1 then h1 else VNull) \<and>
   reject (then_args d h1 h2) = (if is_function h2 then h2 else VNull) \<and>
   resolve (catch_args d h2) = VNull \<and>
   reject (catch_args d h2) = (if is_function h2 then h2 else VNull) \<and>
   check_args (Object (then_args d h1 h2)) = Inr (then_args d h1 h2) \<and>
   check_args (Object (catch_args d h2)) = Inr (catch_args d h2) \<and>
   chain n p (Object (then_args d h1 h2)) s \<noteq> Throws (VTypeError m) s' \<and>
   chain n p (Object (catch_args d h2)) s \<noteq> Throws (VTypeError m) s' \<and>
   chain n p (Object (then_args d h1 h2)) s =
     (case path_end n s p of
        None \<Rightarrow> Throws stack_overflow s
      | Some t \<Rightarrow> Returns () (deliver_all t [then_args d h1 h2] s)) \<and>
   chain n p (Object (catch_args d h2)) s =
     (case path_end n s p of
        None \<Rightarrow> Throws stack_overflow s
      | Some t \<Rightarrow> Returns () (deliver_all t [catch_args d h2] s)) \<and>
   run_task U n (RunProducer d (ThenFunc p h1 h2)) s =
     (case path_end n s p of
        None \<Rightarrow> rejector n d stack_overflow s
      | Some t \<Rightarrow> Returns () (deliver_all t [then_args d h1 h2] s)) \<and>
   run_task U n (RunProducer d (CatchFunc p h2)) s =
     (case path_end n s p of
        None \<Rightarrow> rejector n d stack_overflow s
      | Some t \<Rightarrow> Returns () (deliver_all t [catch_args d h2] s))"
proof (intro conjI)
  show "chain n p (Object (then_args d h1 h2)) s \<noteq> Throws (VTypeError m) s'"
    by (rule chain_checked_no_TypeError[OF then_args_checked])
  show "chain n p (Object (catch_args d h2)) s \<noteq> Throws (VTypeError m) s'"
    by (rule chain_checked_no_TypeError[OF catch_args_checked])
  show "chain n p (Object (then_args d h1 h2)) s =
     (case path_end n s p of
        None \<Rightarrow> Throws stack_overflow s
      | Some t \<Rightarrow> Returns () (deliver_all t [then_args d h1 h2] s))"
    by (rule chain_eq[OF then_args_checked])
  show "chain n p (Object (catch_args d h2)) s =
     (case path_end n s p of
        None \<Rightarrow> Throws stack_overflow s
      | Some t \<Rightarrow> Returns () (deliver_all t [catch_args d h2] s))"
    by (rule chain_eq[OF catch_args_checked])
  show "run_task U n (RunProducer d (ThenFunc p h1 h2)) s =
     (case path_end n s p of
        None \<Rightarrow> rejector n d stack_overflow s
      | Some t \<Rightarrow> Returns () (deliver_all t [then_args d h1 h2] s))"
    by (rule producer_attaches[OF then_args_checked call_producer_Then])
  show "run_task U n (RunProducer d (CatchFunc p h2)) s =
     (case path_end n s p of
        None \<Rightarrow> rejector n d stack_overflow s
      | Some t \<Rightarrow> Returns () (deliver_all t [catch_args d h2] s))"
    by (rule producer_attaches[OF catch_args_checked call_producer_Catch])
qed (simp_all add: Promise_then_eq Promise_catch_eq then_args_def catch_args_def check_args_def)

text \<open>
  The claim as written fails: \<^verbatim>\<open>then(5)\<close> and \<^verbatim>\<open>catch("not callable")\<close> on promise 0 of
  \<open>ex_resolved\<close>, which is fulfilled with 5, return without an exception, and the promise
  \<^verbatim>\<open>then(5)\<close> returned is later fulfilled with 5 as if no handler had been given.
\<close>

theorem non_callable_handler_counterexample:
  "is_throw (Promise_then 0 (VNum 5) VUndefined ex_resolved) = False \<and>
   is_throw (Promise_catch 0 (VStr ''not callable'') ex_resolved) = False \<and>
   outcome_after demo 8 [Then 0 (VNum 5) VUndefined, RunImmediate 2, RunImmediate 2] ex_resolved 4 =
     (RESOLVED, VNum 5)"
  by code_simp

section \<open>Handlers that throw\<close>

lemma link_then_args [simp]:
  "link_reject (link (then_args d h1 h2)) = VFun (Rejector d)"
  "link_resolve (link (then_args d h1 h2)) = VFun (Resolver d)"
  "link_reject (link (catch_args d h2)) = VFun (Rejector d)"
  "link_resolve (link (catch_args d h2)) = VFun (Resolver d)"
  "link_of (then_args d h1 h2) opr = VFun (settlement_fn opr d)"
  "link_of (catch_args d h2) opr = VFun (settlement_fn opr d)"
  by (cases opr; simp add: then_args_def catch_args_def link_of_def settlement_fn_def)+

lemma handler_of_then_args:
  "(case opr of OpResolve \<Rightarrow> h1 | OpReject \<Rightarrow> h2) = VFun f \<Longrightarrow>
   handler_of (then_args d h1 h2) opr = VFun f"
  by (cases opr) (simp_all add: handler_of_def then_args_def)

lemma handler_of_catch_args:
  "handler_of (catch_args d (VFun f)) OpReject = VFun f"
  by (simp add: handler_of_def catch_args_def)

lemma call_val_settlement:
  "call_val U n (VFun (settlement_fn opr d)) v s = returning VUndefined (call_settlement n d (opr, v) s)"
  by (simp add: call_val_def call_settlement_fn)

text \<open>The calls a handler makes to \<^verbatim>\<open>this.link.resolve\<close> and \<^verbatim>\<open>this.link.reject\<close>: on a
  downstream promise that is settled they do nothing, and on one that is fresh the first of
  them settles it.\<close>

lemma this_link_calls_settled:
  assumes "link_of a OpResolve = VFun (Resolver d)" and "link_of a OpReject = VFun (Rejector d)"
    and "status (heap s d) \<noteq> PENDING"
  shows "this_link_calls U n a cs s = Returns () s"
proof (induction cs)
  case Nil
  then show ?case by simp
next
  case (Cons c cs)
  have "call_val U n (link_of a (fst c)) (snd c) s = Returns VUndefined s"
    using assms by (cases "fst c") (simp_all add: call_val_def resolver_settled rejector_settled)
  with Cons show ?case by simp
qed

lemma this_link_calls_fresh:
  assumes "link_of a OpResolve = VFun (Resolver d)" and "link_of a OpReject = VFun (Rejector d)"
    and "status (heap s d) = PENDING" and "queue (heap s d) = []"
  shows "this_link_calls U n a cs s =
           Returns () (case cs of [] \<Rightarrow> s | c # _ \<Rightarrow> settle d (status_of (fst c)) (snd c) s)"
proof (cases cs)
  case Nil
  then show ?thesis by simp
next
  case (Cons c cs')
  have l: "link_of a (fst c) = VFun (settlement_fn (fst c) d)"
    using assms(1,2) by (cases "fst c") (simp_all add: settlement_fn_def)
  have "call_val U n (link_of a (fst c)) (snd c) s = Returns VUndefined (settle d (status_of (fst c)) (snd c) s)"
    using settle_fresh[OF assms(3,4), of n "fst c" "snd c"] by (simp add: l call_val_settlement)
  moreover have "this_link_calls U n a cs' (settle d (status_of (fst c)) (snd c) s) =
                 Returns () (settle d (status_of (fst c)) (snd c) s)"
  proof -
    have "status (heap (settle d (status_of (fst c)) (snd c) s) d) \<noteq> PENDING" by simp
    from this_link_calls_settled[OF assms(1,2) this] show ?thesis .
  qed
  ultimately show ?thesis using Cons by simp
qed

lemma returning_returning [simp]: "returning x (returning y c) = returning x c"
  by (cases c) simp_all

lemma invoke_handler_throws:
  assumes "call_method U n a opr (fate (heap s p)) s = Throws ex s1"
    and "link_reject (link a) = VFun (Rejector d)"
  shows "run_task U n (InvokeHandler p a opr) s = returning () (rejector n d ex s1)"
  using assms by (simp add: run_task_def call_val_def)

lemma invoke_handler_calls_reject:
  assumes "call_method U n a opr (fate (heap s p)) s = Throws ex s1"
    and "a = then_args d h1 h2 \<or> a = catch_args d h2"
  shows "run_task U n (InvokeHandler p a opr) s = returning () (rejector n d ex s1)"
proof -
  from assms(2) have l: "link_reject (link a) = VFun (Rejector d)" by auto
  from invoke_handler_throws[OF assms(1) l] show ?thesis .
qed

lemma invoke_handler_rejects:
  assumes "call_method U n a opr (fate (heap s p)) s = Throws ex s1"
    and "a = then_args d h1 h2 \<or> a = catch_args d h2"
    and "status (heap s1 d) = PENDING"
  shows "outcome (state_of (run_task U n (InvokeHandler p a opr) s)) d = (REJECTED, ex)"
  using invoke_handler_calls_reject[OF assms(1,2)] call_settlement_outcome[OF assms(3), of n "(OpReject, ex)"]
  by (simp add: rejector_call status_of_def)

lemma invoke_handler_late:
  assumes "call_method U n a opr (fate (heap s p)) s = Throws ex s1"
    and "a = then_args d h1 h2 \<or> a = catch_args d h2"
    and "status (heap s1 d) \<noteq> PENDING"
  shows "run_task U n (InvokeHandler p a opr) s = Returns () s1"
  using invoke_handler_calls_reject[OF assms(1,2)] assms(3)
  by (simp add: rejector_settled)

text \<open>The task of a reaction whose handler for the operation is a user function that
  throws, with a fresh downstream promise \<open>d\<close>: the first call the function made to
  \<^verbatim>\<open>this.link\<close> settles \<open>d\<close>, and when it made none the exception rejects \<open>d\<close>.\<close>

lemma run_throwing_task:
  assumes h: "handler_of a opr = VFun (User k)" and u: "U k (fate (heap s p)) = (cs, Inl ex)"
    and a: "a = then_args d h1 h2 \<or> a = catch_args d h2"
    and f: "status (heap s d) = PENDING" "queue (heap s d) = []"
  shows "run_task U n (task_for p a opr v) s =
           Returns () (case cs of [] \<Rightarrow> settle d REJECTED ex s
                       | c # _ \<Rightarrow> settle d (status_of (fst c)) (snd c) s)"
proof -
  have t: "task_for p a opr v = InvokeHandler p a opr"
    using h by (simp add: task_for_def)
  from a have l: "link_of a OpResolve = VFun (Resolver d)" "link_of a OpReject = VFun (Rejector d)"
    by (auto simp: settlement_fn_def)
  let ?s1 = "case cs of [] \<Rightarrow> s | c # _ \<Rightarrow> settle d (status_of (fst c)) (snd c) s"
  have m: "call_method U n a opr (fate (heap s p)) s = Throws ex ?s1"
    using this_link_calls_fresh[OF l f, of U n cs] u by (simp add: call_method_user[OF h])
  show ?thesis
  proof (cases cs)
    case Nil
    with m have "call_method U n a opr (fate (heap s p)) s = Throws ex s" by simp
    from invoke_handler_calls_reject[OF this a] settle_fresh[OF f, of n OpReject ex] Nil t
    show ?thesis by (simp add: rejector_call status_of_def)
  next
    case (Cons c cs')
    with m have m': "call_method U n a opr (fate (heap s p)) s =
                       Throws ex (settle d (status_of (fst c)) (snd c) s)" by simp
    from invoke_handler_late[OF m' a] Cons t show ?thesis by simp
  qed
qed

lemma then_throws_settled:
  assumes lt: "p < allocated s" and h: "(case opr of OpResolve \<Rightarrow> h1 | OpReject \<Rightarrow> h2) = VFun (User k)"
    and u: "U k v = (cs, Inl ex)" and np: "\<not> instanceof_Promise v"
    and st: "status (heap s p) = status_of opr" and fa: "fate (heap s p) = v"
  shows "outcome_after U n [Then p h1 h2, RunImmediate (length (immediates s)),
                          RunImmediate (length (immediates s))] s (allocated s) =
           (case cs of [] \<Rightarrow> (REJECTED, ex) | c # _ \<Rightarrow> (status_of (fst c), snd c))"
proof -
  let ?d = "allocated s"
  let ?a = "then_args ?d h1 h2"
  let ?P = "RunProducer ?d (ThenFunc p h1 h2)"
  let ?T = "task_for p ?a opr v"
  let ?s1 = "logged [?P, ?T] (allocate s)"
  have pd: "p \<noteq> ?d" using lt by simp
  have pe: "path_end n (allocate s) p = Some p"
    using lt np fa by (intro path_end_allocate_self) simp_all
  have st': "status (heap (allocate s) p) \<noteq> PENDING" using st pd by simp
  have u': "U k (fate (heap ?s1 p)) = (cs, Inl ex)" using u fa pd by simp
  have rt: "run_task U n ?T ?s1 =
              Returns () (case cs of [] \<Rightarrow> settle ?d REJECTED ex ?s1
                          | c # _ \<Rightarrow> settle ?d (status_of (fst c)) (snd c) ?s1)"
    using handler_of_then_args[OF h] u'
    by (intro run_throwing_task[where k = k and ?h1.0 = h1 and ?h2.0 = h2]) simp_all
  from attach_runs_settled[of U n "Then p h1 h2" s "ThenFunc p h1 h2" p ?a p,
         OF run_event_Then call_producer_Then then_args_checked pe st'] rt pd
  show ?thesis
    by (simp add: st fa outcome_after_def outcome_def split: list.splits)
qed

lemma then_throws_pending:
  assumes lt: "p < allocated s" and h: "(case opr of OpResolve \<Rightarrow> h1 | OpReject \<Rightarrow> h2) = VFun (User k)"
    and u: "U k v = (cs, Inl ex)" and np: "\<not> instanceof_Promise v"
    and pe: "status (heap s p) = PENDING" and ck: "checked_queue s p"
  shows "outcome_after U n [Then p h1 h2, RunImmediate (length (immediates s)),
                          Call (settlement_fn opr p) v,
                          RunImmediate (length (immediates s) + length (queue (heap s p)))]
           s (allocated s) =
           (case cs of [] \<Rightarrow> (REJECTED, ex) | c # _ \<Rightarrow> (status_of (fst c), snd c))"
proof -
  let ?d = "allocated s"
  let ?a = "then_args ?d h1 h2"
  let ?P = "RunProducer ?d (ThenFunc p h1 h2)"
  let ?T = "task_for p ?a opr v"
  let ?s4 = "logged [?T] (deliver_all p (queue (heap (allocate s) p)) (settle p (status_of opr) v
               (push p ?a (logged [?P] (allocate s)))))"
  have pd: "p \<noteq> ?d" using lt by simp
  have pe': "path_end n (allocate s) p = Some p"
    using lt pe by (intro path_end_allocate_self) simp_all
  have pt: "status (heap (allocate s) p) = PENDING" using pe pd by simp
  have ck': "checked_queue (allocate s) p" using ck pd by (simp add: checked_queue_def)
  note fr = fresh_after_pending[OF pd, where q = "queue (heap (allocate s) p)" and st = "status_of opr"
              and v = v and a = ?a and ts = "[?T]" and us = "[?P]"]
  have rt: "run_task U n ?T ?s4 =
              Returns () (case cs of [] \<Rightarrow> settle ?d REJECTED ex ?s4
                          | c # _ \<Rightarrow> settle ?d (status_of (fst c)) (snd c) ?s4)"
    using handler_of_then_args[OF h] u fr
    by (intro run_throwing_task[where k = k and ?h1.0 = h1 and ?h2.0 = h2]) simp_all
  from attach_runs_pending[of U n "Then p h1 h2" s "ThenFunc p h1 h2" p ?a p v opr,
         OF run_event_Then call_producer_Then then_args_checked pe' pt ck' np] rt pd
  show ?thesis
    by (simp add: outcome_after_def outcome_def split: list.splits)
qed

lemma catch_throws_settled:
  assumes lt: "p < allocated s" and u: "U k v = (cs, Inl ex)" and np: "\<not> instanceof_Promise v"
    and st: "status (heap s p) = REJECTED" and fa: "fate (heap s p) = v"
  shows "outcome_after U n [Catch p (VFun (User k)), RunImmediate (length (immediates s)),
                          RunImmediate (length (immediates s))] s (allocated s) =
           (case cs of [] \<Rightarrow> (REJECTED, ex) | c # _ \<Rightarrow> (status_of (fst c), snd c))"
proof -
  let ?d = "allocated s"
  let ?a = "catch_args ?d (VFun (User k))"
  let ?P = "RunProducer ?d (CatchFunc p (VFun (User k)))"
  let ?T = "task_for p ?a OpReject v"
  let ?s1 = "logged [?P, ?T] (allocate s)"
  have pd: "p \<noteq> ?d" using lt by simp
  have pe: "path_end n (allocate s) p = Some p"
    using lt np fa by (intro path_end_allocate_self) simp_all
  have st': "status (heap (allocate s) p) \<noteq> PENDING" using st pd by simp
  have u': "U k (fate (heap ?s1 p)) = (cs, Inl ex)" using u fa pd by simp
  have rt: "run_task U n ?T ?s1 =
              Returns () (case cs of [] \<Rightarrow> settle ?d REJECTED ex ?s1
                          | c # _ \<Rightarrow> settle ?d (status_of (fst c)) (snd c) ?s1)"
    using handler_of_catch_args[of ?d "User k"] u'
    by (intro run_throwing_task[where k = k and ?h2.0 = "VFun (User k)"]) simp_all
  from attach_runs_settled[of U n "Catch p (VFun (User k))" s "CatchFunc p (VFun (User k))" p ?a p,
         OF run_event_Catch call_producer_Catch catch_args_checked pe st'] rt pd
  show ?thesis
    by (simp add: st fa outcome_after_def outcome_def op_of_def split: list.splits)
qed




section \<open>Promises settled with a Promise\<close>

text \<open>Attaching to a promise that is settled with a Promise is attaching to that Promise,
  one call deeper on the stack.\<close>

lemma chain_forwarded:
  assumes "status (heap s p) \<noteq> PENDING" and "fate (heap s p) = VPromise q"
  shows "chain (Suc m) p x s = chain m q x s"
proof (cases "check_args x")
  case (Inl e)
  then show ?thesis by (simp add: chain_unchecked)
next
  case (Inr a)
  then have x: "x = Object a" by (rule check_args_Inr)
  from assms Inr show ?thesis
    by (cases "status (heap s p)") (simp_all add: chain.simps[of "Suc m"] envoy.simps[of "Suc m"] x)
qed

lemma chain_no_room:
  assumes "status (heap s p) \<noteq> PENDING" and "fate (heap s p) = VPromise q"
    and "check_args x = Inr a"
  shows "chain 0 p x s = Throws stack_overflow s"
  using assms by (simp add: chain_eq path_end_step)

lemma task_for_absent:
  "\<not> is_function (case opr of OpResolve \<Rightarrow> h1 | OpReject \<Rightarrow> h2) \<Longrightarrow>
   task_for t (then_args d h1 h2) opr v = CallWith (VFun (settlement_fn opr d)) v"
  by (cases opr) (simp_all add: task_for_def handler_of_def then_args_def link_of_def settlement_fn_def)

lemma path_end_allocate_step:
  assumes "p < allocated s" and "q < allocated s"
    and "status (heap s p) \<noteq> PENDING" and "fate (heap s p) = VPromise q"
    and "status (heap s q) = PENDING \<or> \<not> instanceof_Promise (fate (heap s q))"
    and "0 < n"
  shows "path_end n (allocate s) p = Some q"
proof -
  from assms(6) obtain m where n: "n = Suc m" by (cases n) simp_all
  have "path_end n (allocate s) p = path_end m (allocate s) q"
    using assms(1,3,4) by (simp add: path_end_step n)
  also have "\<dots> = Some q"
    using assms(2,5) by (intro path_end_allocate_self) simp_all
  finally show ?thesis .
qed

text \<open>
  \<^verbatim>\<open>then\<close> on a promise \<open>p\<close> that is settled with the promise \<open>q\<close>, with no handler for the
  operation under which \<open>q\<close> is settled: after the producer and the task of the reaction, the
  promise \<^verbatim>\<open>then\<close> returned has the status and the fate of \<open>q\<close>.
\<close>

lemma then_adopts_settled:
  assumes lt: "p < allocated s" "q < allocated s"
    and sp: "status (heap s p) \<noteq> PENDING" and fp: "fate (heap s p) = VPromise q"
    and sq: "status (heap s q) \<noteq> PENDING" and fq: "\<not> instanceof_Promise (fate (heap s q))"
    and n: "0 < n"
    and h: "\<not> is_function (case op_of (status (heap s q)) of OpResolve \<Rightarrow> h1 | OpReject \<Rightarrow> h2)"
  shows "run U n [Then p h1 h2, RunImmediate (length (immediates s)),
                  RunImmediate (length (immediates s))] s =
           settle (allocated s) (status (heap s q)) (fate (heap s q))
             (logged [RunProducer (allocated s) (ThenFunc p h1 h2),
                      CallWith (VFun (settlement_fn (op_of (status (heap s q))) (allocated s)))
                        (fate (heap s q))]
                (allocate s))"
proof -
  have qd: "q \<noteq> allocated s" using lt by simp
  have pe: "path_end n (allocate s) p = Some q"
    using lt sp fp fq n by (intro path_end_allocate_step) simp_all
  have st': "status (heap (allocate s) q) \<noteq> PENDING" using sq qd by simp
  show ?thesis
    using attach_runs_settled[of U n "Then p h1 h2" s "ThenFunc p h1 h2" p
            "then_args (allocated s) h1 h2" q,
            OF run_event_Then call_producer_Then then_args_checked pe st']
      run_pass_task[OF fresh_after_settled, of U n] status_of_op_of[OF sq] qd h
    by (simp add: task_for_absent)
qed

text \<open>The same when \<open>q\<close> is pending and is settled, with a value that is not a Promise, once
  the reaction has reached its queue.\<close>

lemma then_adopts_pending:
  assumes lt: "p < allocated s" "q < allocated s"
    and sp: "status (heap s p) \<noteq> PENDING" and fp: "fate (heap s p) = VPromise q"
    and sq: "status (heap s q) = PENDING" and ck: "checked_queue s q"
    and np: "\<not> instanceof_Promise v" and n: "0 < n"
    and h: "\<not> is_function (case opr of OpResolve \<Rightarrow> h1 | OpReject \<Rightarrow> h2)"
  shows "run U n [Then p h1 h2, RunImmediate (length (immediates s)),
                  Call (settlement_fn opr q) v,
                  RunImmediate (length (immediates s) + length (queue (heap s q)))] s =
           settle (allocated s) (status_of opr) v
             (logged [CallWith (VFun (settlement_fn opr (allocated s))) v]
                (deliver_all q (queue (heap s q))
                   (settle q (status_of opr) v
                      (push q (then_args (allocated s) h1 h2)
                         (logged [RunProducer (allocated s) (ThenFunc p h1 h2)] (allocate s))))))"
proof -
  have qd: "q \<noteq> allocated s" using lt by simp
  have pe: "path_end n (allocate s) p = Some q"
    using lt sp fp sq n by (intro path_end_allocate_step) simp_all
  have pt: "status (heap (allocate s) q) = PENDING" using sq qd by simp
  have ck': "checked_queue (allocate s) q" using ck qd by (simp add: checked_queue_def)
  show ?thesis
    using attach_runs_pending[of U n "Then p h1 h2" s "ThenFunc p h1 h2" p
            "then_args (allocated s) h1 h2" q v opr,
            OF run_event_Then call_producer_Then then_args_checked pe pt ck' np]
      run_pass_task[OF fresh_after_pending(1,2)[OF qd], of U n] qd h
    by (simp add: task_for_absent)
qed

text \<open>
  A reaction that waits in the queue of a pending promise \<open>t\<close> when \<open>t\<close> is settled with a
  Promise: it is handed over where the path from \<open>t\<close> ends, here at a settled promise \<open>u\<close>.
\<close>

lemma attach_runs_forwarded:
  assumes ev: "run_event U n e s = setImmediate (RunProducer (allocated s) f) (allocate s)"
    and prod: "\<And>s'. call_producer n f (allocated s) s' = chain n p (Object a) s'"
    and ca: "check_args (Object a) = Inr a"
    and pe: "path_end n (allocate s) p = Some t"
    and pt: "status (heap (allocate s) t) = PENDING" and ck: "checked_queue (allocate s) t"
    and fw: "path_end n (settle t (status_of opr) v (allocate s)) t = Some u"
    and su: "status (heap (allocate s) u) \<noteq> PENDING"
  shows "run U n [e, RunImmediate (length (immediates s)), Call (settlement_fn opr t) v,
                RunImmediate (length (immediates s) + length (queue (heap (allocate s) t)))] s =
           state_of
             (run_task U n (task_for u a (op_of (status (heap (allocate s) u))) (fate (heap (allocate s) u)))
                (logged [task_for u a (op_of (status (heap (allocate s) u))) (fate (heap (allocate s) u))]
                   (deliver_all u (queue (heap (allocate s) t))
                      (settle t (status_of opr) v
                         (push t a (logged [RunProducer (allocated s) f] (allocate s)))))))"
proof -
  let ?P = "RunProducer (allocated s) f"
  let ?s0 = "allocate s"
  let ?k = "length (immediates s)"
  let ?q = "queue (heap ?s0 t)"
  let ?s2 = "push t a (logged [?P] ?s0)"
  let ?s3 = "settle t (status_of opr) v ?s2"
  let ?s4 = "deliver_all u ?q ?s3"
  let ?T = "task_for u a (op_of (status (heap ?s0 u))) (fate (heap ?s0 u))"
  have ut: "u \<noteq> t" using pt su by auto
  have e2: "run_event U n (RunImmediate ?k) (setImmediate ?P ?s0) = ?s2"
  proof -
    have "run_task U n ?P (logged [?P] ?s0) = Returns () (deliver_all t [a] (logged [?P] ?s0))"
      using producer_attaches[OF ca prod, of U "logged [?P] ?s0"] pe by simp
    moreover have "deliver_all t [a] (logged [?P] ?s0) = ?s2"
      using pt by (simp add: deliver_one_pending)
    ultimately show ?thesis by (simp add: run_immediate_logged)
  qed
  have q2: "queue (heap ?s2 t) = ?q @ [a]" by simp
  have p2: "status (heap ?s2 t) = PENDING" using pt by simp
  have c2: "checked_queue ?s2 t"
    using ck ca by (simp add: checked_queue_def)
  have f3: "path_end n ?s3 t = Some u"
    using fw path_end_frame[of ?s3 "settle t (status_of opr) v ?s0" n t] by simp
  have u3: "status (heap ?s3 u) \<noteq> PENDING" "status (heap ?s3 u) = status (heap ?s0 u)"
    "fate (heap ?s3 u) = fate (heap ?s0 u)"
    using su ut by simp_all
  have "call_settlement n t (opr, v) ?s2 = Returns () (deliver_all u (?q @ [a]) ?s3)"
    using call_settlement_delivers[OF p2 c2, of n "(opr, v)" u] f3 q2 by simp
  also have "deliver_all u (?q @ [a]) ?s3 = deliver_all u [a] ?s4"
    by (rule deliver_all_append)
  also have "deliver_all u [a] ?s4 = setImmediate ?T ?s4"
    using u3 by (simp add: deliver_one_settled dispatch_eq)
  finally have cs: "call_settlement n t (opr, v) ?s2 = Returns () (setImmediate ?T ?s4)" .
  have e3: "run_event U n (Call (settlement_fn opr t) v) ?s2 = setImmediate ?T ?s4"
    by (simp only: run_event_Call call_settlement_fn cs returning_simps state_of_simps)
  have i4: "length (immediates ?s4) = ?k + length ?q"
    using u3 by (simp add: deliver_all_immediates)
  have e4: "run_event U n (RunImmediate (?k + length ?q)) (setImmediate ?T ?s4) =
              state_of (run_task U n ?T (logged [?T] ?s4))"
    using i4 by (simp add: run_immediate_logged)
  show ?thesis by (simp only: run.simps ev e2 e3 e4)
qed

text \<open>\<^verbatim>\<open>then\<close> on a pending promise \<open>p\<close> that is then settled with the promise \<open>q\<close>, itself settled
  with a fate that is not a Promise: the promise \<^verbatim>\<open>then\<close> returned has the status and the fate
  of \<open>q\<close>, and \<open>p\<close> has the status written and \<open>q\<close> as its fate.\<close>

lemma queued_then_adopts:
  assumes lt: "p < allocated s" "q < allocated s"
    and sp: "status (heap s p) = PENDING" and ck: "checked_queue s p"
    and sq: "status (heap s q) \<noteq> PENDING" and fq: "\<not> instanceof_Promise (fate (heap s q))"
    and n: "0 < n"
    and h: "\<not> is_function (case op_of (status (heap s q)) of OpResolve \<Rightarrow> h1 | OpReject \<Rightarrow> h2)"
  shows "run U n [Then p h1 h2, RunImmediate (length (immediates s)),
                  Call (settlement_fn opr p) (VPromise q),
                  RunImmediate (length (immediates s) + length (queue (heap s p)))] s =
           settle (allocated s) (status (heap s q)) (fate (heap s q))
             (logged [CallWith (VFun (settlement_fn (op_of (status (heap s q))) (allocated s)))
                        (fate (heap s q))]
                (deliver_all q (queue (heap s p))
                   (settle p (status_of opr) (VPromise q)
                      (push p (then_args (allocated s) h1 h2)
                         (logged [RunProducer (allocated s) (ThenFunc p h1 h2)] (allocate s))))))"
proof -
  have pd: "p \<noteq> allocated s" and qd: "q \<noteq> allocated s" using lt by simp_all
  have pq: "p \<noteq> q" using sp sq by auto
  have pe: "path_end n (allocate s) p = Some p"
    using lt sp by (intro path_end_allocate_self) simp_all
  have pt: "status (heap (allocate s) p) = PENDING" using sp pd by simp
  have ck': "checked_queue (allocate s) p" using ck pd by (simp add: checked_queue_def)
  from n obtain m where nm: "n = Suc m" by (cases n) simp_all
  have fw: "path_end n (settle p (status_of opr) (VPromise q) (allocate s)) p = Some q"
    using fq qd pq by (simp add: path_end_step[of _ p q] nm)
  have su: "status (heap (allocate s) q) \<noteq> PENDING" using sq qd by simp
  let ?s4 = "logged [CallWith (VFun (settlement_fn (op_of (status (heap s q))) (allocated s)))
                        (fate (heap s q))]
                (deliver_all q (queue (heap s p))
                   (settle p (status_of opr) (VPromise q)
                      (push p (then_args (allocated s) h1 h2)
                         (logged [RunProducer (allocated s) (ThenFunc p h1 h2)] (allocate s)))))"
  have fr: "status (heap ?s4 (allocated s)) = PENDING" "queue (heap ?s4 (allocated s)) = []"
    using pd qd by (simp_all add: deliver_all_queue)
  show ?thesis
    using attach_runs_forwarded[of U n "Then p h1 h2" s "ThenFunc p h1 h2" p
            "then_args (allocated s) h1 h2" p opr "VPromise q" q,
            OF run_event_Then call_producer_Then then_args_checked pe pt ck' fw su]
      run_pass_task[OF fr, of U n] status_of_op_of[OF sq] pd qd h
    by (simp add: task_for_absent)
qed

text \<open>The reaction of \<^verbatim>\<open>then\<close> or \<^verbatim>\<open>catch\<close> once its producer has run, when the path ends
  at a pending promise: it waits in that promise's queue and the host has no task for it.\<close>

lemma attach_runs_queue:
  assumes ev: "run_event U n e s = setImmediate (RunProducer (allocated s) f) (allocate s)"
    and prod: "\<And>s'. call_producer n f (allocated s) s' = chain n p (Object a) s'"
    and ca: "check_args (Object a) = Inr a"
    and pe: "path_end n (allocate s) p = Some t"
    and pt: "status (heap (allocate s) t) = PENDING"
  shows "run U n [e, RunImmediate (length (immediates s))] s =
           push t a (logged [RunProducer (allocated s) f] (allocate s))"
proof -
  let ?P = "RunProducer (allocated s) f"
  let ?s0 = "allocate s"
  have "run_task U n ?P (logged [?P] ?s0) = Returns () (deliver_all t [a] (logged [?P] ?s0))"
    using producer_attaches[OF ca prod, of U "logged [?P] ?s0"] pe by simp
  moreover have "deliver_all t [a] (logged [?P] ?s0) = push t a (logged [?P] ?s0)"
    using pt by (simp add: deliver_one_pending)
  ultimately have "run_event U n (RunImmediate (length (immediates s))) (setImmediate ?P ?s0) =
                     push t a (logged [?P] ?s0)"
    by (simp add: run_immediate_logged)
  then show ?thesis by (simp only: run.simps ev)
qed

text \<open>
  Paths that do not end. A promise settled with itself has no path end, whatever room the
  stack has: \<^verbatim>\<open>then\<close> on it rejects the promise it returns with the RangeError, and a
  settlement function that settles a promise with itself throws the RangeError at the first
  reaction of the queue, so that no reaction of the queue is ever given to the host.
\<close>

lemma then_on_endless_path:
  assumes "path_end n (allocate s) p = None"
  shows "run U n [Then p h1 h2, RunImmediate (length (immediates s))] s =
           settle (allocated s) REJECTED stack_overflow
             (logged [RunProducer (allocated s) (ThenFunc p h1 h2)] (allocate s))"
proof -
  let ?P = "RunProducer (allocated s) (ThenFunc p h1 h2)"
  have "run_task U n ?P (logged [?P] (allocate s)) =
          (case path_end n (logged [?P] (allocate s)) p of
             None \<Rightarrow> rejector n (allocated s) stack_overflow (logged [?P] (allocate s))
           | Some t \<Rightarrow> Returns () (deliver_all t [then_args (allocated s) h1 h2]
                                     (logged [?P] (allocate s))))"
    by (rule producer_attaches[OF then_args_checked call_producer_Then])
  then have "run_task U n ?P (logged [?P] (allocate s)) =
          rejector n (allocated s) stack_overflow (logged [?P] (allocate s))"
    using assms by simp
  also have "\<dots> = Returns () (settle (allocated s) REJECTED stack_overflow (logged [?P] (allocate s)))"
    using settle_fresh[of "logged [?P] (allocate s)" "allocated s" n OpReject stack_overflow]
    by (simp add: rejector_call status_of_def)
  finally have "run_event U n (RunImmediate (length (immediates s))) (setImmediate ?P (allocate s)) =
                  settle (allocated s) REJECTED stack_overflow (logged [?P] (allocate s))"
    by (simp add: run_immediate_logged)
  then show ?thesis by (simp only: run.simps run_event_Then)
qed

lemma then_on_promise_settled_with_itself:
  assumes "p < allocated s" and "status (heap s p) \<noteq> PENDING" and "fate (heap s p) = VPromise p"
  shows "outcome_after U n [Then p h1 h2, RunImmediate (length (immediates s))] s (allocated s) =
           (REJECTED, stack_overflow)"
proof -
  have "path_end n (allocate s) p = None"
    using assms by (intro path_end_self) simp_all
  from then_on_endless_path[OF this] show ?thesis
    by (simp add: outcome_after_def outcome_def)
qed

lemma settled_with_itself_loses_the_queue:
  assumes "status (heap s p) = PENDING" and "checked_queue s p" and "queue (heap s p) \<noteq> []"
  shows "call_settlement n p (opr, VPromise p) s =
           Throws stack_overflow (settle p (status_of opr) (VPromise p) s)"
proof -
  have "path_end n (settle p (status_of opr) (VPromise p) s) p = None"
    by (intro path_end_self) simp_all
  with assms show ?thesis by (simp add: call_settlement_eq)
qed

lemma ex_forwarded_simps:
  "status (heap (ex_forwarded st) p) = (if p = 0 then st else PENDING)"
  "fate (heap (ex_forwarded st) 0) = VPromise 3"
  "queue (heap (ex_forwarded st) 3) =
     [then_args 1 (VFun (User 1)) VUndefined, then_args 2 VUndefined VUndefined]"
  "immediates (ex_forwarded st) = []"
  "allocated (ex_forwarded st) = 4"
  "checked_queue (ex_forwarded st) 3"
  by (simp_all add: ex_forwarded_def ex_pending_simps deliver_all_queue deliver_all_immediates
        checked_queue_def)

section \<open>A promise fulfilled with a Promise\<close>

lemma path_end_forwarded:
  "status (heap s p) \<noteq> PENDING \<Longrightarrow> fate (heap s p) = VPromise q \<Longrightarrow>
   path_end (Suc m) s p = path_end m s q"
  by (simp add: path_end_step)

lemma then_waits_for_inner:
  assumes lt: "p < allocated s" "q < allocated s"
    and sp: "status (heap s p) \<noteq> PENDING" and fp: "fate (heap s p) = VPromise q"
    and sq: "status (heap s q) = PENDING" and n: "0 < n"
  shows "run U n [Then p h1 h2, RunImmediate (length (immediates s))] s =
           push q (then_args (allocated s) h1 h2)
             (logged [RunProducer (allocated s) (ThenFunc p h1 h2)] (allocate s))"
proof -
  have qd: "q \<noteq> allocated s" using lt by simp
  have pe: "path_end n (allocate s) p = Some q"
    using lt sp fp sq n by (intro path_end_allocate_step) simp_all
  have pt: "status (heap (allocate s) q) = PENDING" using sq qd by simp
  show ?thesis
    by (rule attach_runs_queue[OF run_event_Then call_producer_Then then_args_checked pe pt])
qed




section \<open>A promise rejected with a Promise\<close>

lemma producer_forwards_to_settled:
  assumes "status (heap s p) \<noteq> PENDING" and "fate (heap s p) = VPromise q"
    and "status (heap s q) \<noteq> PENDING" and "\<not> instanceof_Promise (fate (heap s q))"
  shows "run_task U (Suc m) (RunProducer d (ThenFunc p h1 h2)) s =
           Returns () (setImmediate
             (task_for q (then_args d h1 h2) (op_of (status (heap s q))) (fate (heap s q))) s)"
proof -
  have "path_end (Suc m) s p = Some q"
    using assms by (simp add: path_end_forwarded)
  from run_then_producer[OF this] assms(3) show ?thesis
    by (simp add: deliver_one_settled dispatch_eq)
qed




section \<open>One place for each reaction\<close>

lemma sum_support_update:
  fixes f :: "nat \<Rightarrow> nat"
  assumes "finite {q. f q \<noteq> 0}"
  shows "sum (f(p := x)) {q. (f(p := x)) q \<noteq> 0} + f p = sum f {q. f q \<noteq> 0} + x"
proof -
  let ?A = "{q. f q \<noteq> 0} \<union> {p}"
  let ?g = "f(p := x)"
  have fin: "finite ?A" using assms by simp
  have 1: "sum ?g {q. ?g q \<noteq> 0} = sum ?g ?A"
    by (rule sum.mono_neutral_left[OF fin]) auto
  have 2: "sum f {q. f q \<noteq> 0} = sum f ?A"
    by (rule sum.mono_neutral_left[OF fin]) auto
  have 3: "sum ?g ?A = x + sum ?g (?A - {p})"
    using sum.remove[OF fin, of p ?g] by simp
  have 4: "sum f ?A = f p + sum f (?A - {p})"
    using sum.remove[OF fin, of p f] by simp
  have 5: "sum ?g (?A - {p}) = sum f (?A - {p})"
    by (rule sum.cong) auto
  show ?thesis using 1 2 3 4 5 by simp
qed

lemma weight_support: "{p. weight d s p \<noteq> 0} \<subseteq> {p. queue (heap s p) \<noteq> []}"
  by (auto simp: weight_def)

lemma weight_finite: "finite {p. queue (heap s p) \<noteq> []} \<Longrightarrow> finite {p. weight d s p \<noteq> 0}"
  using weight_support finite_subset by blast

lemma waiting_update:
  assumes "finite {p. queue (heap s p) \<noteq> []}" and "weight d s' = (weight d s)(p := x)"
  shows "waiting d s' + weight d s p = waiting d s + x"
  using sum_support_update[OF weight_finite[OF assms(1)], of d p x] assms(2)
  by (simp add: waiting_def)

lemma waiting_same: "weight d s' = weight d s \<Longrightarrow> waiting d s' = waiting d s"
  by (simp add: waiting_def)

lemma weight_deliver_all:
  "weight d (deliver_all t as s) =
     (weight d s)(t := weight d s t +
        (if status (heap s t) = PENDING then length (filter (aims d) as) else 0))"
  by (rule ext) (simp add: weight_def deliver_all_queue)

lemma weight_settle:
  "st \<noteq> PENDING \<Longrightarrow> weight d (settle p st v s) = (weight d s)(p := 0)"
  by (rule ext) (simp add: weight_def)

lemma weight_allocate: "weight d (allocate s) = (weight d s)(allocated s := weight d (allocate s) (allocated s))"
  by (rule ext) (simp add: weight_def)

lemma weight_allocate_new [simp]: "weight d (allocate s) (allocated s) = 0"
  by (simp add: weight_def)

lemma linked_link_of:
  "linked a \<Longrightarrow> aims d a \<Longrightarrow> link_of a opr = VFun (settlement_fn opr d)"
  by (cases opr) (auto simp: linked_def aims_def link_of_def settlement_fn_def)

lemma dispatches_task_for:
  assumes "linked a"
  shows "dispatches d (task_for t a opr v) = aims d a"
proof -
  from assms obtain d' where l: "link a = \<lparr>link_resolve = VFun (Resolver d'),
      link_reject = VFun (Rejector d'), link_promise = VPromise d'\<rparr>"
    by (auto simp: linked_def)
  then show ?thesis
    by (cases opr) (auto simp: dispatches_def task_for_def aims_def link_of_def)
qed

lemma attaches_task_for [simp]: "\<not> attaches d (task_for t a opr v)"
  by (simp add: attaches_def task_for_def)

lemma filter_dispatches_tasks:
  "list_all linked as \<Longrightarrow>
   length (filter (dispatches d \<circ> (\<lambda>a. task_for t a opr v)) as) = length (filter (aims d) as)"
  by (induction as) (simp_all add: dispatches_task_for)

lemma filter_attaches_tasks:
  "filter (attaches d \<circ> (\<lambda>a. task_for t a opr v)) as = []"
  by (induction as) simp_all

lemma places_deliver_all:
  assumes "finite {p. queue (heap s p) \<noteq> []}" and "list_all linked as"
  shows "places d (deliver_all t as s) = places d s + length (filter (aims d) as)"
proof (cases "status (heap s t) = PENDING")
  case True
  from waiting_update[OF assms(1) weight_deliver_all, of d t as] True
  have "waiting d (deliver_all t as s) = waiting d s + length (filter (aims d) as)" by simp
  then show ?thesis using True
    by (simp add: places_def attaching_def dispatched_def deliver_all_immediates deliver_all_submitted)
next
  case False
  have "weight d (deliver_all t as s) = weight d s"
    using False by (simp add: weight_deliver_all)
  then have "waiting d (deliver_all t as s) = waiting d s" by (rule waiting_same)
  then show ?thesis using False assms(2)
    by (simp add: places_def attaching_def dispatched_def deliver_all_immediates deliver_all_submitted
          filter_dispatches_tasks filter_attaches_tasks)
qed

lemma places_settle:
  assumes "finite {p. queue (heap s p) \<noteq> []}" and "st \<noteq> PENDING"
  shows "places d (settle p st v s) + weight d s p = places d s"
  using waiting_update[OF assms(1) weight_settle[OF assms(2)], of d p v]
  by (simp add: places_def attaching_def dispatched_def)

lemma support_deliver_all:
  "finite {p. queue (heap s p) \<noteq> []} \<Longrightarrow> finite {p. queue (heap (deliver_all t as s) p) \<noteq> []}"
  by (rule finite_subset[of _ "{p. queue (heap s p) \<noteq> []} \<union> {t}"])
     (auto simp: deliver_all_queue split: if_splits)

lemma base_deliver_all:
  assumes "base s" and "list_all linked as" and "list_all (\<lambda>a. check_args (Object a) = Inr a) as"
  shows "base (deliver_all t as s)"
  using assms support_deliver_all[of s t as] all_checked_deliver_all[of s as t]
  by (auto simp: base_def deliver_all_queue)

lemma base_settle [simp]: "base (settle p st v s) = base s"
  by (simp add: base_def)

lemma quiet_refl [simp]: "quiet s s"
  by (simp add: quiet_def)

lemma quiet_trans:
  assumes "quiet s s'" and "quiet s' s''"
  shows "quiet s s''"
proof -
  have "base s'' \<and> (\<forall>d. places d s'' \<le> places d s)" if b: "base s"
  proof -
    from assms(1) b have 1: "base s'" "\<And>d. places d s' \<le> places d s"
      by (simp_all add: quiet_def)
    from assms(2) 1(1) have 2: "base s''" "\<And>d. places d s'' \<le> places d s'"
      by (simp_all add: quiet_def)
    from 1(2) 2 show ?thesis using le_trans by blast
  qed
  with assms show ?thesis by (simp add: quiet_def)
qed

lemma quiet_good:
  assumes "quiet s s'" and "good s"
  shows "good s'"
proof -
  from assms have b: "base s'" and le: "\<And>d. places d s' \<le> places d s"
    and a: "allocated s' = allocated s"
    by (simp_all add: quiet_def good_def)
  have "places d s' \<le> 1" for d
    using le[of d] assms(2) by (auto simp: good_def intro: le_trans)
  moreover have "places d s' = 0" if "allocated s' \<le> d" for d
    using le[of d] assms(2) that a by (simp add: good_def)
  ultimately show ?thesis using b by (simp add: good_def)
qed

lemma call_settlement_quiet: "quiet s (state_of (call_settlement n p c s))"
proof (cases "status (heap s p) = PENDING")
  case False
  then show ?thesis by (simp add: call_settlement_settled)
next
  case True
  let ?s1 = "settle p (status_of (fst c)) (snd c) s"
  have a: "allocated (state_of (call_settlement n p c s)) = allocated s"
    using call_settlement_only_attaches[OF True, of c n] by (simp add: only_attaches_def)
  have "base (state_of (call_settlement n p c s)) \<and>
        (\<forall>d. places d (state_of (call_settlement n p c s)) \<le> places d s)" if b: "base s"
  proof -
    from b have fin: "finite {p. queue (heap s p) \<noteq> []}" and ck: "checked_queue s p"
      and lk: "list_all linked (queue (heap s p))"
      and ckl: "list_all (\<lambda>a. check_args (Object a) = Inr a) (queue (heap s p))"
      by (simp_all add: base_def all_checked_def checked_queue_def)
    have fin1: "finite {p. queue (heap ?s1 p) \<noteq> []}" using fin by simp
    have b1: "base ?s1" using b by simp
    have t1: "places d ?s1 + weight d s p = places d s" for d
      by (rule places_settle[OF fin]) simp
    have w: "weight d s p = length (filter (aims d) (queue (heap s p)))" for d
      using True by (simp add: weight_def)
    show ?thesis
    proof (cases "path_end n ?s1 p")
      case None
      then have "state_of (call_settlement n p c s) = ?s1"
        using True by (simp add: call_settlement_eq[OF ck])
      with b1 t1 show ?thesis by (metis le_add1)
    next
      case (Some t)
      then have r: "state_of (call_settlement n p c s) = deliver_all t (queue (heap s p)) ?s1"
        using True by (simp add: call_settlement_eq[OF ck])
      have "places d (deliver_all t (queue (heap s p)) ?s1) = places d s" for d
        using places_deliver_all[OF fin1 lk, of d t] t1[of d] w[of d] by simp
      moreover have "base (deliver_all t (queue (heap s p)) ?s1)"
        by (rule base_deliver_all[OF b1 lk ckl])
      ultimately show ?thesis by (simp add: r)
    qed
  qed
  with a show ?thesis by (simp add: quiet_def)
qed

lemma resolver_quiet: "quiet s (state_of (resolver n p v s))"
  using call_settlement_quiet[of s n p "(OpResolve, v)"] by (simp add: resolver_call)

lemma rejector_quiet: "quiet s (state_of (rejector n p v s))"
  using call_settlement_quiet[of s n p "(OpReject, v)"] by (simp add: rejector_call)

lemma quiet_closures:
  "heap s' = heap s \<Longrightarrow> allocated s' = allocated s \<Longrightarrow> immediates s' = immediates s \<Longrightarrow>
   submitted s' = submitted s \<Longrightarrow> quiet s s'"
  by (simp add: quiet_def base_def all_checked_def checked_queue_def places_def attaching_def
        waiting_def weight_def dispatched_def)

lemma all_fulfil_quiet: "quiet s (state_of (all_fulfil n c index v s))"
proof (cases "all_status (closures s c)")
  case False
  then show ?thesis by (simp add: all_fulfil_def)
next
  case True
  let ?s1 = "s\<lparr>closures := (closures s)(c := (closures s c)
                    \<lparr>results := set_index (results (closures s c)) index v,
                     remaining := remaining (closures s c) - 1\<rparr>)\<rparr>"
  have e1: "quiet s ?s1" by (rule quiet_closures) simp_all
  show ?thesis
  proof (cases "remaining (closures ?s1 c) = 0")
    case False
    with True have "state_of (all_fulfil n c index v s) = ?s1"
      by (simp add: all_fulfil_def Let_def)
    with e1 show ?thesis by simp
  next
    case z: True
    with True
    have "state_of (all_fulfil n c index v s) =
          state_of (resolver n (all_promise (closures ?s1 c)) (VArr (results (closures ?s1 c))) ?s1)"
      by (simp add: all_fulfil_def Let_def)
    with resolver_quiet[of ?s1] e1 show ?thesis
      by (auto intro: quiet_trans)
  qed
qed

lemma all_reject_quiet: "quiet s (state_of (all_reject n c reason s))"
proof -
  let ?s1 = "s\<lparr>closures := (closures s)(c := (closures s c)\<lparr>all_status := False\<rparr>)\<rparr>"
  have e1: "quiet s ?s1" by (rule quiet_closures) simp_all
  have "state_of (all_reject n c reason s) =
        state_of (rejector n (all_promise (closures ?s1 c)) reason ?s1)"
    by (simp add: all_reject_def Let_def)
  with rejector_quiet[of ?s1] e1 show ?thesis
    by (auto intro: quiet_trans)
qed

lemma call_fn_quiet: "quiet s (state_of (call_fn U n f v s))"
  using resolver_quiet rejector_quiet all_fulfil_quiet all_reject_quiet
  by (cases f) (simp_all split: list.splits)

lemma call_val_quiet: "quiet s (state_of (call_val U n g v s))"
  using call_fn_quiet by (cases g) (simp_all add: call_val_def)

lemma this_link_calls_quiet: "quiet s (state_of (this_link_calls U n a cs s))"
proof (induction cs arbitrary: s)
  case Nil
  then show ?case by simp
next
  case (Cons c cs)
  from call_val_quiet[of s U n "link_of a (fst c)" "snd c"]
    Cons[of "state_of (call_val U n (link_of a (fst c)) (snd c) s)"]
  show ?case
    by (cases "call_val U n (link_of a (fst c)) (snd c) s") (auto intro: quiet_trans)
qed

lemma call_method_quiet: "quiet s (state_of (call_method U n a opr v s))"
proof (cases "\<exists>k. handler_of a opr = VFun (User k)")
  case True
  then obtain k where k: "handler_of a opr = VFun (User k)" by blast
  from this_link_calls_quiet[of s U n a "fst (U k v)"] show ?thesis
    by (cases "this_link_calls U n a (fst (U k v)) s") (simp_all add: call_method_user[OF k])
next
  case False
  then have "call_method U n a opr v s = call_val U n (handler_of a opr) v s"
    by (intro call_method_other) blast
  with call_val_quiet show ?thesis by simp
qed

lemma user_calls_quiet: "quiet s (state_of (user_calls n p cs s))"
proof (induction cs arbitrary: s)
  case Nil
  then show ?case by simp
next
  case (Cons c cs)
  from call_settlement_quiet[of s n p c] Cons[of "state_of (call_settlement n p c s)"]
  show ?case
    by (cases "call_settlement n p c s") (auto intro: quiet_trans)
qed

lemma base_frame:
  "heap s' = heap s \<Longrightarrow> base s' = base s"
  by (simp add: base_def all_checked_def checked_queue_def)

lemma waiting_frame: "heap s' = heap s \<Longrightarrow> waiting d s' = waiting d s"
  by (simp add: waiting_def weight_def)

lemma good_quiet_step: "good s \<Longrightarrow> quiet s s' \<Longrightarrow> good s'"
  using quiet_good by blast

lemma attaches_producer:
  "attaches d' (RunProducer d f) \<Longrightarrow> d' = d"
  by (auto simp: attaches_def split: producer.splits)

lemma dispatches_producer [simp]: "\<not> dispatches d' (RunProducer d f)"
  by (simp add: dispatches_def)

lemma Promise_good:
  assumes "good s"
  shows "good (state_of (Promise func s))"
proof (cases func)
  case (NotAFunction u)
  with assms show ?thesis by (simp add: Promise_def)
next
  case (Function f)
  let ?d = "allocated s"
  let ?s' = "setImmediate (RunProducer ?d f) (allocate s)"
  from assms have b: "base s" and le: "\<And>d. places d s \<le> 1"
    and z: "\<And>d. allocated s \<le> d \<Longrightarrow> places d s = 0"
    by (simp_all add: good_def)
  from b have fin: "finite {p. queue (heap s p) \<noteq> []}" by (simp add: base_def)
  have sub: "{p. queue (heap ?s' p) \<noteq> []} \<subseteq> {p. queue (heap s p) \<noteq> []}"
    by auto
  have ac: "all_checked ?s'"
    using Promise_evolves[of s "Function f"] b
    by (simp add: Promise_eq evolves_def base_def)
  have lk: "list_all linked (queue (heap ?s' p))" for p
    using b by (simp add: base_def)
  have b': "base ?s'"
    using finite_subset[OF sub fin] ac lk by (simp add: base_def)
  have w: "waiting d' ?s' \<le> waiting d' s" for d'
  proof -
    have "weight d' (allocate s) = (weight d' s)(?d := 0)"
      by (rule ext) (simp add: weight_def)
    from waiting_update[OF fin this] have "waiting d' (allocate s) \<le> waiting d' s" by simp
    moreover have "waiting d' ?s' = waiting d' (allocate s)"
      by (rule waiting_frame) simp
    ultimately show ?thesis by simp
  qed
  have p: "places d' ?s' \<le> places d' s + (if d' = ?d then 1 else 0)" for d'
    using w[of d'] attaches_producer[of d' ?d f]
    by (auto simp: places_def attaching_def dispatched_def)
  have "places d' ?s' \<le> 1" for d'
    using p[of d'] le[of d'] z[of d'] by (cases "d' = ?d") simp_all
  moreover have "places d' ?s' = 0" if "allocated ?s' \<le> d'" for d'
    using p[of d'] z[of d'] that by simp
  ultimately have "good ?s'" using b' by (simp add: good_def)
  with Function show ?thesis by (simp add: Promise_eq)
qed

lemma call_then_good: "good s \<Longrightarrow> good (state_of (call_then x a b s))"
  using Promise_good by (cases x) (simp_all add: call_then_def Promise_then_def)

lemma all_each_good:
  assumes "good s"
  shows "good (state_of (all_each c v index s))"
proof (cases "truthy v \<and> \<not> has_then v")
  case True
  then show ?thesis using call_then_good[OF assms] by (simp add: all_each_def)
next
  case False
  from Promise_good[OF assms, of "Function (ResolveFunc v)"]
  have g: "good (state_of (Promise_resolve v s))" by (simp add: Promise_resolve_def)
  show ?thesis
  proof (cases "Promise_resolve v s")
    case (Returns w s')
    with g call_then_good[of s' "VPromise w"] show ?thesis
      by (simp add: all_each_def False)
  next
    case (Throws e s')
    with g show ?thesis by (simp add: all_each_def False)
  qed
qed

lemma forEach_good:
  assumes "\<And>v index s. good s \<Longrightarrow> good (state_of (f v index s))"
  shows "good s \<Longrightarrow> good (state_of (forEach f vs index s))"
proof (induction vs arbitrary: index s)
  case Nil
  then show ?case by simp
next
  case (Cons v vs)
  from assms[OF Cons.prems, of v index] have g: "good (state_of (f v index s))" .
  show ?case
  proof (cases "f v index s")
    case (Returns u s')
    with g Cons.IH[of s' "index + 1"] show ?thesis by simp
  next
    case (Throws e s')
    with g show ?thesis by simp
  qed
qed

lemma good_closures:
  "good s \<Longrightarrow> heap s' = heap s \<Longrightarrow> allocated s' = allocated s \<Longrightarrow> immediates s' = immediates s \<Longrightarrow>
   submitted s' = submitted s \<Longrightarrow> good s'"
  using quiet_closures quiet_good by blast

text \<open>A producer that is not the one of \<^verbatim>\<open>then\<close> or \<^verbatim>\<open>catch\<close> attaches no reaction.\<close>

lemma call_producer_good:
  assumes "good s" and "\<And>d. \<not> attaches d (RunProducer p f)"
  shows "good (state_of (call_producer n f p s))"
proof (cases f)
  case (ThenFunc that h1 h2)
  with assms(2)[of p] show ?thesis by (simp add: attaches_def)
next
  case (CatchFunc that h2)
  with assms(2)[of p] show ?thesis by (simp add: attaches_def)
next
  case (ResolveFunc v)
  with assms(1) resolver_quiet[of s n p v] call_then_good[of s v] show ?thesis
    by (auto simp: call_producer_def intro: quiet_good)
next
  case (RejectFunc v)
  with assms(1) rejector_quiet[of s n p v] show ?thesis
    by (auto simp: call_producer_def intro: quiet_good)
next
  case (AllFunc vs)
  let ?s1 = "s\<lparr>closures := (closures s)(nclosures s :=
                 \<lparr>results = [], remaining = int (length vs), all_status = True, all_promise = p\<rparr>),
               nclosures := nclosures s + 1\<rparr>"
  have g1: "good ?s1" by (rule good_closures[OF assms(1)]) simp_all
  from AllFunc have "call_producer n f p s = forEach (all_each (nclosures s)) vs 0 ?s1"
    by (simp add: call_producer_def Let_def)
  with forEach_good[of "all_each (nclosures s)" ?s1 vs 0, OF all_each_good g1]
  show ?thesis by simp
next
  case (UserFunc cs ex)
  from user_calls_quiet[of s n p cs] assms(1) have "good (state_of (user_calls n p cs s))"
    by (rule quiet_good)
  with UserFunc show ?thesis
    by (cases "user_calls n p cs s"; cases ex) (simp_all add: call_producer_def)
qed

text \<open>\<^verbatim>\<open>chain\<close> puts the reaction it is given in one place, or nowhere.\<close>

lemma chain_places:
  assumes "base s" and "linked a" and "check_args (Object a) = Inr a"
  shows "base (state_of (chain n p (Object a) s)) \<and>
         allocated (state_of (chain n p (Object a) s)) = allocated s \<and>
         places d (state_of (chain n p (Object a) s)) \<le> places d s + (if aims d a then 1 else 0)"
proof (cases "path_end n s p")
  case None
  with assms show ?thesis by (simp add: chain_eq)
next
  case (Some t)
  from assms(1) have fin: "finite {p. queue (heap s p) \<noteq> []}" by (simp add: base_def)
  have "places d (deliver_all t [a] s) = places d s + length (filter (aims d) [a])"
    by (rule places_deliver_all[OF fin]) (simp add: assms(2))
  moreover have "base (deliver_all t [a] s)"
    by (rule base_deliver_all[OF assms(1)]) (simp_all add: assms(2,3))
  ultimately show ?thesis using Some assms(3) by (simp add: chain_eq)
qed

lemma linked_then_args [simp]: "linked (then_args d h1 h2)" "linked (catch_args d h2)"
  by (simp_all add: linked_def then_args_def catch_args_def)

lemma aims_then_args [simp]:
  "aims d' (then_args d h1 h2) = (d' = d)" "aims d' (catch_args d h2) = (d' = d)"
  by (auto simp: aims_def then_args_def catch_args_def)

lemma filter_remove_nth:
  assumes "k < length xs"
  shows "length (filter P (take k xs @ drop (k + 1) xs)) + (if P (xs ! k) then 1 else 0) =
         length (filter P xs)"
proof -
  have "xs = take k xs @ xs ! k # drop (k + 1) xs"
    using assms by (simp add: id_take_nth_drop)
  then have "length (filter P xs) = length (filter P (take k xs @ xs ! k # drop (k + 1) xs))"
    by simp
  then show ?thesis by simp
qed

lemma run_producer_good:
  assumes "good (state_of (call_producer n f d S))"
  shows "good (state_of (run_task U n (RunProducer d f) S))"
proof (cases "call_producer n f d S")
  case (Returns u s')
  with assms show ?thesis by (simp add: run_task_def)
next
  case (Throws ex s')
  with assms have "good s'" by simp
  from quiet_good[OF rejector_quiet[of s' n d ex] this] Throws show ?thesis
    by (simp add: run_task_def)
qed

lemma run_task_good:
  assumes g: "good s" and k: "k < length (immediates s)"
  shows "good (state_of (run_task U n (immediates s ! k)
                 (s\<lparr>immediates := take k (immediates s) @ drop (k + 1) (immediates s)\<rparr>)))"
proof -
  let ?t = "immediates s ! k"
  let ?S = "s\<lparr>immediates := take k (immediates s) @ drop (k + 1) (immediates s)\<rparr>"
  from g have b: "base s" and le: "\<And>d. places d s \<le> 1"
    and z: "\<And>d. allocated s \<le> d \<Longrightarrow> places d s = 0"
    by (simp_all add: good_def)
  have bS: "base ?S" using b base_frame[of ?S s] by simp
  have pS: "places d ?S + (if attaches d ?t then 1 else 0) = places d s" for d
    using filter_remove_nth[OF k, of "attaches d"] waiting_frame[of ?S s d]
    by (simp add: places_def attaching_def dispatched_def)
  have gS: "good ?S"
  proof -
    have "places d ?S \<le> places d s" for d using pS[of d] by simp
    with le z bS show ?thesis
      unfolding good_def by (metis (no_types, lifting) le_trans le_zero_eq select_convs(2) surjective update_convs(3))
  qed
  have attach: "good (state_of (run_task U n (RunProducer d' f) ?S))"
    if t: "?t = RunProducer d' f" and c: "call_producer n f d' ?S = chain n p (Object a) ?S"
      and la: "linked a" and ca: "check_args (Object a) = Inr a" and ai: "\<And>d. aims d a = (d = d')"
      and at: "attaches d' ?t" for d' f p a
  proof -
    let ?S1 = "state_of (chain n p (Object a) ?S)"
    note cp = chain_places[OF bS la ca, of n p]
    have le1: "places d ?S1 \<le> places d s" for d
    proof (cases "d = d'")
      case True
      with cp[of d] pS[of d] at ai[of d] show ?thesis by simp
    next
      case False
      with cp[of d] pS[of d] ai[of d] show ?thesis by simp
    qed
    have g1: "good ?S1"
    proof -
      have "places d ?S1 \<le> 1" for d using le1[of d] le[of d] by simp
      moreover have "places d ?S1 = 0" if "allocated ?S1 \<le> d" for d
        using le1[of d] z[of d] that cp[of d] by simp
      ultimately show ?thesis using cp by (simp add: good_def)
    qed
    from g1 c have "good (state_of (call_producer n f d' ?S))" by simp
    then show ?thesis by (rule run_producer_good)
  qed
  show ?thesis
  proof (cases ?t)
    case (RunProducer d' f)
    show ?thesis
    proof (cases f)
      case (ThenFunc p h1 h2)
      have "good (state_of (run_task U n (RunProducer d' f) ?S))"
        using RunProducer ThenFunc
        by (intro attach[where a = "then_args d' h1 h2" and p = p])
           (simp_all add: attaches_def)
      with RunProducer show ?thesis by simp
    next
      case (CatchFunc p h2)
      have "good (state_of (run_task U n (RunProducer d' f) ?S))"
        using RunProducer CatchFunc
        by (intro attach[where a = "catch_args d' h2" and p = p])
           (simp_all add: attaches_def)
      with RunProducer show ?thesis by simp
    next
      case (ResolveFunc v)
      have na: "\<not> attaches d (RunProducer d' f)" for d
        using ResolveFunc by (simp add: attaches_def)
      from call_producer_good[OF gS na, of n] have g1: "good (state_of (call_producer n f d' ?S))" .
      show ?thesis
        using run_producer_good[OF g1, of U] RunProducer by simp
    next
      case (RejectFunc v)
      have na: "\<not> attaches d (RunProducer d' f)" for d
        using RejectFunc by (simp add: attaches_def)
      from call_producer_good[OF gS na, of n] have g1: "good (state_of (call_producer n f d' ?S))" .
      show ?thesis
        using run_producer_good[OF g1, of U] RunProducer by simp
    next
      case (AllFunc vs)
      have na: "\<not> attaches d (RunProducer d' f)" for d
        using AllFunc by (simp add: attaches_def)
      from call_producer_good[OF gS na, of n] have g1: "good (state_of (call_producer n f d' ?S))" .
      show ?thesis
        using run_producer_good[OF g1, of U] RunProducer by simp
    next
      case (UserFunc cs ex)
      have na: "\<not> attaches d (RunProducer d' f)" for d
        using UserFunc by (simp add: attaches_def)
      from call_producer_good[OF gS na, of n] have g1: "good (state_of (call_producer n f d' ?S))" .
      show ?thesis
        using run_producer_good[OF g1, of U] RunProducer by simp
    qed
  next
    case (InvokeHandler p a opr)
    let ?c = "call_method U n a opr (fate (heap ?S p)) ?S"
    have q1: "quiet ?S (state_of ?c)" by (rule call_method_quiet)
    have "quiet ?S (state_of (run_task U n (InvokeHandler p a opr) ?S))"
    proof (cases ?c)
      case (Throws ex s1)
      with q1 call_val_quiet[of s1 U n "link_reject (link a)" ex] show ?thesis
        by (auto simp: run_task_def intro: quiet_trans)
    next
      case (Returns x s1)
      from call_val_quiet[of s1 U n "link_resolve (link a)" x] q1 Returns
      have q2: "quiet ?S (state_of (call_val U n (link_resolve (link a)) x s1))"
        by (auto intro: quiet_trans)
      show ?thesis
      proof (cases "call_val U n (link_resolve (link a)) x s1")
        case r2: (Returns y s2)
        with Returns q2 show ?thesis by (simp add: run_task_def)
      next
        case t2: (Throws ex s2)
        with Returns q2 call_val_quiet[of s2 U n "link_reject (link a)" ex]
        show ?thesis by (auto simp: run_task_def intro: quiet_trans)
      qed
    qed
    with gS InvokeHandler show ?thesis by (auto intro: quiet_good)
  next
    case (CallWith f v)
    with gS call_val_quiet[of ?S U n f v] show ?thesis
      by (auto simp: run_task_def intro: quiet_good)
  qed
qed

lemma run_event_good:
  assumes "good s"
  shows "good (run_event U n e s)"
proof (cases e)
  case (RunImmediate k)
  with assms run_task_good[OF assms, of k U n] show ?thesis
    by (simp add: run_event_def)
next
  case (New func)
  with Promise_good[OF assms, of func] show ?thesis by (simp add: run_event_def)
next
  case (Then p a b)
  with Promise_good[OF assms] show ?thesis by (simp add: run_event_def Promise_then_def)
next
  case (Catch p b)
  with Promise_good[OF assms] show ?thesis by (simp add: run_event_def Promise_catch_def)
next
  case (Resolve v)
  with Promise_good[OF assms] show ?thesis by (simp add: run_event_def Promise_resolve_def)
next
  case (Reject v)
  with Promise_good[OF assms] show ?thesis by (simp add: run_event_def Promise_reject_def)
next
  case (All vs)
  with Promise_good[OF assms] show ?thesis by (simp add: run_event_def Promise_all_def)
next
  case (Call f v)
  with assms call_fn_quiet[of s U n f v] show ?thesis
    by (auto simp: run_event_def intro: quiet_good)
qed

lemma run_good: "good s \<Longrightarrow> good (run U n es s)"
  by (induction es arbitrary: s) (simp_all add: run_event_good)

lemma init_good: "good init"
proof -
  have w: "weight d init p = 0" for d p by (simp add: weight_def init_def)
  have "places d init = 0" for d
    by (simp add: places_def attaching_def dispatched_def waiting_def w) (simp add: init_def)
  moreover have "base init"
    using init_all_checked by (simp add: base_def) (simp add: init_def)
  ultimately show ?thesis by (simp add: good_def)
qed

text \<open>Whatever a program does, the host is given at most one task for the reaction of each
  downstream promise.\<close>

lemma dispatched_at_most_once: "dispatched d (run U n es init) \<le> 1"
proof -
  from run_good[OF init_good] have "places d (run U n es init) \<le> 1"
    by (simp add: good_def)
  then show ?thesis by (simp add: places_def)
qed

section \<open>Calls of then and catch on a pending promise, in any interleaving with the host\<close>

lemma to_attach_append [simp]: "to_attach (ts @ us) = to_attach ts @ to_attach us"
  by (induction ts) (simp_all split: task.splits producer.splits)

lemma called_append_idle [simp]:
  "called d (es @ replicate k (RunImmediate 0)) = called d es"
proof -
  have "called d (replicate k (RunImmediate 0)) = []" for d by (induction k) simp_all
  then show ?thesis
    by (induction es arbitrary: d) (simp_all split: event.splits)
qed

lemma produced_append_idle [simp]:
  "produced d (es @ replicate k (RunImmediate 0)) = produced d es"
proof -
  have "produced d (replicate k (RunImmediate 0)) = []" for d by (induction k) simp_all
  then show ?thesis
    by (induction es arbitrary: d) (simp_all split: event.splits)
qed

lemma attaches_to_producer [simp]:
  "attaches_to p (RunProducer d (ThenFunc p h1 h2))" "attaches_to p (RunProducer d (CatchFunc p h2))"
  by (simp_all add: attaches_to_def)

text \<open>The host runs the oldest task, which is the producer of a call on the pending \<open>p\<close>.\<close>

lemma run_oldest_producer:
  assumes pe: "status (heap S p) = PENDING" and al: "list_all (attaches_to p) (immediates S)"
  shows "status (heap (run_event U n (RunImmediate 0) S) p) = PENDING \<and>
         allocated (run_event U n (RunImmediate 0) S) = allocated S \<and>
         submitted (run_event U n (RunImmediate 0) S) = submitted S \<and>
         immediates (run_event U n (RunImmediate 0) S) = tl (immediates S) \<and>
         queue (heap (run_event U n (RunImmediate 0) S) p) @ to_attach (tl (immediates S)) =
           queue (heap S p) @ to_attach (immediates S)"
proof (cases "immediates S")
  case Nil
  then show ?thesis using pe by (simp add: run_event_def)
next
  case (Cons t ts)
  let ?S0 = "S\<lparr>immediates := ts\<rparr>"
  have pe0: "path_end n ?S0 p = Some p" using pe by simp
  from al Cons have at: "attaches_to p t" by simp
  have e: "run_event U n (RunImmediate 0) S = state_of (run_task U n t ?S0)"
    using Cons by (simp add: run_event_def)
  from at consider (th) d h1 h2 where "t = RunProducer d (ThenFunc p h1 h2)"
    | (ca) d h2 where "t = RunProducer d (CatchFunc p h2)"
    by (auto simp: attaches_to_def split: task.splits producer.splits)
  then show ?thesis
  proof cases
    case th
    with e run_then_producer[OF pe0, of U d h1 h2] pe Cons show ?thesis
      by (simp add: deliver_all_queue deliver_all_immediates deliver_all_submitted)
  next
    case ca
    with e run_catch_producer[OF pe0, of U d h2] pe Cons show ?thesis
      by (simp add: deliver_all_queue deliver_all_immediates deliver_all_submitted)
  qed
qed

lemma calls_keep_order:
  assumes "status (heap S p) = PENDING" and "p < allocated S"
    and "list_all (attaches_to p) (immediates S)" and "list_all (calls_on p) es"
  shows "status (heap (run U n es S) p) = PENDING \<and>
         list_all (attaches_to p) (immediates (run U n es S)) \<and>
         length (immediates (run U n es S)) \<le> length (immediates S) + length es \<and>
         submitted (run U n es S) = submitted S @ produced (allocated S) es \<and>
         queue (heap (run U n es S) p) @ to_attach (immediates (run U n es S)) =
           queue (heap S p) @ to_attach (immediates S) @ called (allocated S) es"
  using assms
proof (induction es arbitrary: S)
  case Nil
  then show ?case by simp
next
  case (Cons e es)
  from Cons.prems(4) have ce: "calls_on p e" and ces: "list_all (calls_on p) es" by simp_all
  from ce consider (th) h1 h2 where "e = Then p h1 h2" | (ca) h2 where "e = Catch p h2"
    | (ru) "e = RunImmediate 0"
    by (auto simp: calls_on_def split: event.splits)
  then show ?case
  proof cases
    case th
    let ?S1 = "setImmediate (RunProducer (allocated S) (ThenFunc p h1 h2)) (allocate S)"
    have r: "run_event U n e S = ?S1" using th by (simp add: run_event_Then)
    have h: "heap ?S1 p = heap S p" using Cons.prems(2) by simp
    have a: "list_all (attaches_to p) (immediates ?S1)"
      using Cons.prems(3) by simp
    from Cons.IH[of ?S1, OF _ _ a ces] Cons.prems(1,2) h
    show ?thesis unfolding run.simps r using th by simp
  next
    case ca
    let ?S1 = "setImmediate (RunProducer (allocated S) (CatchFunc p h2)) (allocate S)"
    have r: "run_event U n e S = ?S1" using ca by (simp add: run_event_Catch)
    have h: "heap ?S1 p = heap S p" using Cons.prems(2) by simp
    have a: "list_all (attaches_to p) (immediates ?S1)"
      using Cons.prems(3) by simp
    from Cons.IH[of ?S1, OF _ _ a ces] Cons.prems(1,2) h
    show ?thesis unfolding run.simps r using ca by simp
  next
    case ru
    let ?S1 = "run_event U n (RunImmediate 0) S"
    note o = run_oldest_producer[OF Cons.prems(1,3), of U n]
    have a: "list_all (attaches_to p) (immediates ?S1)"
      using o Cons.prems(3) by (cases "immediates S") simp_all
    have l: "length (immediates ?S1) \<le> length (immediates S)" using o by simp
    from o Cons.prems(2) have p1: "status (heap ?S1 p) = PENDING" "p < allocated ?S1" by simp_all
    from Cons.IH[OF p1 a ces]
    have ih: "status (heap (run U n es ?S1) p) = PENDING"
      "list_all (attaches_to p) (immediates (run U n es ?S1))"
      "length (immediates (run U n es ?S1)) \<le> length (immediates ?S1) + length es"
      "submitted (run U n es ?S1) = submitted ?S1 @ produced (allocated ?S1) es"
      "queue (heap (run U n es ?S1) p) @ to_attach (immediates (run U n es ?S1)) =
         queue (heap ?S1 p) @ to_attach (immediates ?S1) @ called (allocated ?S1) es"
      by simp_all
    have le: "length (immediates (run U n es ?S1)) \<le> length (immediates S) + length (e # es)"
      using ih(3) l by simp
    have q: "queue (heap (run U n es ?S1) p) @ to_attach (immediates (run U n es ?S1)) =
               queue (heap S p) @ to_attach (immediates S) @ called (allocated S) (e # es)"
    proof -
      from o have "queue (heap ?S1 p) @ to_attach (immediates ?S1) =
                     queue (heap S p) @ to_attach (immediates S)" by simp
      then have "queue (heap ?S1 p) @ to_attach (immediates ?S1) @ called (allocated ?S1) es =
                   queue (heap S p) @ to_attach (immediates S) @ called (allocated ?S1) es"
        by (metis append.assoc)
      with ih(5) o ru show ?thesis by simp
    qed
    have su: "submitted (run U n es ?S1) = submitted S @ produced (allocated S) (e # es)"
      using ih(4) o ru by simp
    from ih(1,2) le su q show ?thesis unfolding run.simps ru by blast
  qed
qed

lemma host_runs_all:
  assumes "status (heap S p) = PENDING" and "list_all (attaches_to p) (immediates S)"
    and "length (immediates S) \<le> k"
  shows "immediates (run U n (replicate k (RunImmediate 0)) S) = [] \<and>
         status (heap (run U n (replicate k (RunImmediate 0)) S) p) = PENDING \<and>
         submitted (run U n (replicate k (RunImmediate 0)) S) = submitted S \<and>
         queue (heap (run U n (replicate k (RunImmediate 0)) S) p) =
           queue (heap S p) @ to_attach (immediates S)"
  using assms
proof (induction k arbitrary: S)
  case 0
  then show ?case by simp
next
  case (Suc k)
  let ?S1 = "run_event U n (RunImmediate 0) S"
  note o = run_oldest_producer[OF Suc.prems(1,2), of U n]
  have a: "list_all (attaches_to p) (immediates ?S1)"
    using o Suc.prems(2) by (cases "immediates S") simp_all
  have l: "length (immediates ?S1) \<le> k" using o Suc.prems(3) by simp
  from o have p1: "status (heap ?S1 p) = PENDING" by simp
  from Suc.IH[OF p1 a l] o show ?case by simp
qed

text \<open>Calls of \<^verbatim>\<open>then\<close> and \<^verbatim>\<open>catch\<close> on a pending promise, in any interleaving with a host that
  runs its oldest task: the reactions attached and those still to attach are, in this
  order, the reactions of the calls in the order of the calls.\<close>

lemma fifo_calls_pending:
  assumes i: "immediates s = []" and lt: "p < allocated s" and pe: "status (heap s p) = PENDING"
    and es: "list_all (calls_on p) es"
  shows "status (heap (run U n es s) p) = PENDING"
    and "submitted (run U n es s) = submitted s @ produced (allocated s) es"
    and "queue (heap (run U n es s) p) @ to_attach (immediates (run U n es s)) =
           queue (heap s p) @ called (allocated s) es"
  using calls_keep_order[OF pe lt _ es, of U n] i by simp_all

text \<open>Once the host has run every producer, the queue holds them all.\<close>

lemma fifo_calls_attached:
  assumes i: "immediates s = []" and lt: "p < allocated s" and pe: "status (heap s p) = PENDING"
    and es: "list_all (calls_on p) es"
  shows "immediates (run U n (es @ replicate (length es) (RunImmediate 0)) s) = []"
    and "status (heap (run U n (es @ replicate (length es) (RunImmediate 0)) s) p) = PENDING"
    and "submitted (run U n (es @ replicate (length es) (RunImmediate 0)) s) =
           submitted s @ produced (allocated s) es"
    and "queue (heap (run U n (es @ replicate (length es) (RunImmediate 0)) s) p) =
           queue (heap s p) @ called (allocated s) es"
proof -
  let ?S = "run U n es s"
  from calls_keep_order[OF pe lt _ es, of U n] i
  have k: "status (heap ?S p) = PENDING" "list_all (attaches_to p) (immediates ?S)"
    "length (immediates ?S) \<le> length es" "submitted ?S = submitted s @ produced (allocated s) es"
    "queue (heap ?S p) @ to_attach (immediates ?S) = queue (heap s p) @ called (allocated s) es"
    by simp_all
  note h = host_runs_all[OF k(1,2,3), of U n]
  show "immediates (run U n (es @ replicate (length es) (RunImmediate 0)) s) = []"
    using h by (simp add: run_append)
  show "status (heap (run U n (es @ replicate (length es) (RunImmediate 0)) s) p) = PENDING"
    using h by (simp add: run_append)
  show "submitted (run U n (es @ replicate (length es) (RunImmediate 0)) s) =
           submitted s @ produced (allocated s) es"
    using h k(4) by (simp add: run_append)
  show "queue (heap (run U n (es @ replicate (length es) (RunImmediate 0)) s) p) =
           queue (heap s p) @ called (allocated s) es"
    using h k(5) by (simp add: run_append)
qed

lemma called_checked: "list_all (\<lambda>a. check_args (Object a) = Inr a) (called d es)"
  by (induction es arbitrary: d) (simp_all split: event.splits)

text \<open>The promise is then settled with a value that is not a Promise: the host is given one
  task for each reaction, the older ones first, in the order of the calls.\<close>

lemma fifo_calls_settle:
  assumes i: "immediates s = []" and lt: "p < allocated s" and pe: "status (heap s p) = PENDING"
    and es: "list_all (calls_on p) es"
    and ck: "checked_queue s p" and np: "\<not> instanceof_Promise v"
  shows "immediates (run U n (es @ replicate (length es) (RunImmediate 0) @
                              [Call (settlement_fn opr p) v]) s) =
           map (\<lambda>a. task_for p a opr v) (queue (heap s p) @ called (allocated s) es)"
    and "submitted (run U n (es @ replicate (length es) (RunImmediate 0) @
                              [Call (settlement_fn opr p) v]) s) =
           submitted s @ produced (allocated s) es @
           map (\<lambda>a. task_for p a opr v) (queue (heap s p) @ called (allocated s) es)"
    and "outcome (run U n (es @ replicate (length es) (RunImmediate 0) @
                              [Call (settlement_fn opr p) v]) s) p = (status_of opr, v)"
proof -
  let ?S = "run U n (es @ replicate (length es) (RunImmediate 0)) s"
  note f = fifo_calls_attached[OF i lt pe es, where U = U and n = n]
  have ck': "checked_queue ?S p"
    using ck called_checked[of "allocated s" es] by (simp add: checked_queue_def f(4))
  have pe': "path_end n (settle p (status_of opr) v ?S) p = Some p"
    using np by simp
  have c: "call_settlement n p (opr, v) ?S =
             Returns () (deliver_all p (queue (heap ?S p)) (settle p (status_of opr) v ?S))"
    using call_settlement_delivers[OF f(2) ck', of n "(opr, v)" p] pe' by simp
  have r: "run U n (es @ replicate (length es) (RunImmediate 0) @
                              [Call (settlement_fn opr p) v]) s =
             deliver_all p (queue (heap ?S p)) (settle p (status_of opr) v ?S)"
    using run_append[of U n "es @ replicate (length es) (RunImmediate 0)"
            "[Call (settlement_fn opr p) v]" s]
    by (simp add: run_event_Call call_settlement_fn c del: run_append)
  show "immediates (run U n (es @ replicate (length es) (RunImmediate 0) @
                              [Call (settlement_fn opr p) v]) s) =
           map (\<lambda>a. task_for p a opr v) (queue (heap s p) @ called (allocated s) es)"
    unfolding r by (simp add: deliver_all_immediates f)
  show "submitted (run U n (es @ replicate (length es) (RunImmediate 0) @
                              [Call (settlement_fn opr p) v]) s) =
           submitted s @ produced (allocated s) es @
           map (\<lambda>a. task_for p a opr v) (queue (heap s p) @ called (allocated s) es)"
    unfolding r by (simp add: deliver_all_submitted f)
  show "outcome (run U n (es @ replicate (length es) (RunImmediate 0) @
                              [Call (settlement_fn opr p) v]) s) p = (status_of opr, v)"
    unfolding r by (simp add: outcome_def)
qed


text \<open>Calls of \<^verbatim>\<open>then\<close> and \<^verbatim>\<open>catch\<close> with no task run in between.\<close>

lemma run_calls:
  assumes "list_all (calls_on p) es" and "RunImmediate 0 \<notin> set es"
  shows "allocated (run U n es s) = allocated s + length es \<and>
         immediates (run U n es s) = immediates s @ produced (allocated s) es \<and>
         submitted (run U n es s) = submitted s @ produced (allocated s) es \<and>
         (\<forall>q < allocated s. heap (run U n es s) q = heap s q)"
  using assms
proof (induction es arbitrary: s)
  case Nil
  then show ?case by simp
next
  case (Cons e es)
  from Cons.prems have ce: "calls_on p e" and ces: "list_all (calls_on p) es"
    and ne: "e \<noteq> RunImmediate 0" and nes: "RunImmediate 0 \<notin> set es" by auto
  from ce ne consider (th) h1 h2 where "e = Then p h1 h2" | (ca) h2 where "e = Catch p h2"
    by (auto simp: calls_on_def split: event.splits)
  then show ?case
  proof cases
    case th
    let ?S1 = "setImmediate (RunProducer (allocated s) (ThenFunc p h1 h2)) (allocate s)"
    have r: "run_event U n e s = ?S1" using th by (simp add: run_event_Then)
    from Cons.IH[OF ces nes, of ?S1] show ?thesis unfolding run.simps r using th by simp
  next
    case ca
    let ?S1 = "setImmediate (RunProducer (allocated s) (CatchFunc p h2)) (allocate s)"
    have r: "run_event U n e s = ?S1" using ca by (simp add: run_event_Catch)
    from Cons.IH[OF ces nes, of ?S1] show ?thesis unfolding run.simps r using ca by simp
  qed
qed

lemma produced_attaches:
  "list_all (calls_on p) es \<Longrightarrow> list_all (attaches_to p) (produced d es)"
  by (induction es arbitrary: d) (auto simp: calls_on_def split: event.splits)

lemma to_attach_produced: "to_attach (produced d es) = called d es"
  by (induction es arbitrary: d) (simp_all split: event.splits)

lemma length_produced: "RunImmediate 0 \<notin> set es \<Longrightarrow> list_all (calls_on p) es \<Longrightarrow>
  length (produced d es) = length es"
  by (induction es arbitrary: d) (auto simp: calls_on_def split: event.splits)

text \<open>The host runs the producers of calls on \<open>p\<close>, the oldest first, when the path from \<open>p\<close>
  ends at \<open>p\<close>: the reactions arrive at \<open>p\<close> in the order of the producers.\<close>

lemma run_producers_in_order:
  assumes "immediates S = ps @ ts" and "list_all (attaches_to p) ps"
    and "status (heap S p) = PENDING \<or> \<not> instanceof_Promise (fate (heap S p))"
  shows "run U n (replicate (length ps) (RunImmediate 0)) S =
           deliver_all p (to_attach ps) (S\<lparr>immediates := ts\<rparr>)"
  using assms
proof (induction ps arbitrary: S ts)
  case Nil
  then have "S\<lparr>immediates := ts\<rparr> = S" by simp
  then show ?case by simp
next
  case (Cons t ps)
  let ?S' = "S\<lparr>immediates := ps @ ts\<rparr>"
  have pe: "path_end n ?S' p = Some p"
    using Cons.prems(3) by (cases "status (heap S p) = PENDING") simp_all
  from Cons.prems(2) have at: "attaches_to p t" and ats: "list_all (attaches_to p) ps" by simp_all
  have "\<exists>a. to_attach [t] = [a] \<and> run_task U n t ?S' = Returns () (deliver_all p [a] ?S')"
    using at run_then_producer[OF pe, of U] run_catch_producer[OF pe, of U]
    by (auto simp: attaches_to_def split: task.splits producer.splits)
  then obtain a where ta: "to_attach [t] = [a]"
    and rt: "run_task U n t ?S' = Returns () (deliver_all p [a] ?S')" by blast
  let ?S1 = "deliver_all p [a] ?S'"
  have e: "run_event U n (RunImmediate 0) S = ?S1"
    using rt Cons.prems(1) by (simp add: run_event_def)
  let ?ts1 = "if status (heap S p) = PENDING then ts
              else ts @ [task_for p a (op_of (status (heap S p))) (fate (heap S p))]"
  have i1: "immediates ?S1 = ps @ ?ts1" by (simp add: deliver_all_immediates)
  have p1: "status (heap ?S1 p) = PENDING \<or> \<not> instanceof_Promise (fate (heap ?S1 p))"
    using Cons.prems(3) by simp
  have eq: "?S1\<lparr>immediates := ?ts1\<rparr> = deliver_all p [a] (S\<lparr>immediates := ts\<rparr>)"
    by (simp add: deliver_all_def)
  have tt: "to_attach (t # ps) = a # to_attach ps"
    using ta by (simp split: task.splits producer.splits)
  have "run U n (replicate (length (t # ps)) (RunImmediate 0)) S =
          run U n (replicate (length ps) (RunImmediate 0)) ?S1"
    by (simp add: e)
  also have "\<dots> = deliver_all p (to_attach ps) (?S1\<lparr>immediates := ?ts1\<rparr>)"
    by (rule Cons.IH[OF i1 ats p1])
  also have "\<dots> = deliver_all p (to_attach (t # ps)) (S\<lparr>immediates := ts\<rparr>)"
    unfolding eq tt using deliver_all_append[of p "[a]" "to_attach ps" "S\<lparr>immediates := ts\<rparr>"]
    by simp
  finally show ?case .
qed

text \<open>On a settled promise whose fate is not a Promise: the host is given one task for each
  reaction, in the order of the calls.\<close>

lemma fifo_calls_settled:
  assumes i: "immediates s = []" and lt: "p < allocated s"
    and st: "status (heap s p) \<noteq> PENDING" and np: "\<not> instanceof_Promise (fate (heap s p))"
    and es: "list_all (calls_on p) es" and nr: "RunImmediate 0 \<notin> set es"
  shows "immediates (run U n (es @ replicate (length es) (RunImmediate 0)) s) =
           map (\<lambda>a. task_for p a (op_of (status (heap s p))) (fate (heap s p)))
             (called (allocated s) es)"
    and "submitted (run U n (es @ replicate (length es) (RunImmediate 0)) s) =
           submitted s @ produced (allocated s) es @
           map (\<lambda>a. task_for p a (op_of (status (heap s p))) (fate (heap s p)))
             (called (allocated s) es)"
proof -
  let ?S = "run U n es s"
  note c = run_calls[OF es nr, of U n s]
  have im: "immediates ?S = produced (allocated s) es @ []" using c i by simp
  have h: "heap ?S p = heap s p" using c lt by simp
  have pe': "status (heap ?S p) = PENDING \<or> \<not> instanceof_Promise (fate (heap ?S p))"
    using np by (simp add: h)
  have r: "run U n (es @ replicate (length es) (RunImmediate 0)) s =
             deliver_all p (called (allocated s) es) (?S\<lparr>immediates := []\<rparr>)"
    using run_producers_in_order[OF im produced_attaches[OF es] pe', of U n]
    by (simp add: run_append length_produced[OF nr es] to_attach_produced)
  show "immediates (run U n (es @ replicate (length es) (RunImmediate 0)) s) =
           map (\<lambda>a. task_for p a (op_of (status (heap s p))) (fate (heap s p)))
             (called (allocated s) es)"
    unfolding r using st by (simp add: deliver_all_immediates h)
  show "submitted (run U n (es @ replicate (length es) (RunImmediate 0)) s) =
           submitted s @ produced (allocated s) es @
           map (\<lambda>a. task_for p a (op_of (status (heap s p))) (fate (heap s p)))
             (called (allocated s) es)"
    unfolding r using st c by (simp add: deliver_all_submitted h)
qed

section \<open>Dispatch of reactions\<close>





end
